theory Spec2Isabelle
  imports Main "HOL-Library.AList"
begin

section \<open>JavaScript values and strings\<close>

text \<open>
  The client of \<^verbatim>\<open>src/monitoring/src/gateway.js\<close> reads frames produced by
  \<^verbatim>\<open>JSON.parse\<close> and writes frames through \<^verbatim>\<open>JSON.stringify\<close>. A value is
  modelled as a \<open>jsval\<close>; \<open>Undefined\<close> is what reading a missing property gives. A number
  carries an integer: the code only tests numbers for truthiness and prints them in decimal.
  An object is an association list of its own properties.
\<close>

datatype jsval =
    Undefined
  | Null
  | JBool bool
  | JNum int
  | JStr string
  | JArr "jsval list"
  | JObj "(string \<times> jsval) list"

text \<open>JavaScript truthiness, as used by \<^verbatim>\<open>a ? b : c\<close>, \<^verbatim>\<open>a || b\<close>, \<^verbatim>\<open>if (a)\<close>.\<close>

fun truthy :: "jsval \<Rightarrow> bool" where
  "truthy Undefined = False"
| "truthy Null = False"
| "truthy (JBool b) = b"
| "truthy (JNum n) = (n \<noteq> 0)"
| "truthy (JStr s) = (s \<noteq> [])"
| "truthy (JArr xs) = True"
| "truthy (JObj fs) = True"

text \<open>\<^verbatim>\<open>a || b\<close>\<close>

definition js_or :: "jsval \<Rightarrow> jsval \<Rightarrow> jsval" where
  "js_or a b = (if truthy a then a else b)"

text \<open>
  \<^verbatim>\<open>v?.name\<close>: \<open>Undefined\<close> on \<^verbatim>\<open>null\<close> and \<^verbatim>\<open>undefined\<close>, the property otherwise. None
  of the property names the client reads is a property of a string, a number, a boolean or
  an array, so those give \<open>Undefined\<close>. (\<^verbatim>\<open>v.name\<close> without \<^verbatim>\<open>?.\<close> differs only on
  \<^verbatim>\<open>null\<close> and \<^verbatim>\<open>undefined\<close>, where it throws; the handlers below write that case out.)
\<close>

fun field :: "jsval \<Rightarrow> string \<Rightarrow> jsval" where
  "field (JObj fs) name = (case map_of fs name of Some v \<Rightarrow> v | None \<Rightarrow> Undefined)"
| "field v name = Undefined"

text \<open>
  An object literal as \<^verbatim>\<open>JSON.stringify\<close> writes it: a property whose value is
  \<^verbatim>\<open>undefined\<close> is left out.
\<close>

definition json_obj :: "(string \<times> jsval) list \<Rightarrow> jsval" where
  "json_obj fs = JObj (filter (\<lambda>kv. snd kv \<noteq> Undefined) fs)"

text \<open>\<^verbatim>\<open>Array.prototype.join\<close> on strings.\<close>

fun join :: "string \<Rightarrow> string list \<Rightarrow> string" where
  "join sep [] = []"
| "join sep [x] = x"
| "join sep (x # y # ys) = x @ sep @ join sep (y # ys)"

text \<open>\<^verbatim>\<open>String(n)\<close> for an integer \<open>n\<close>: decimal digits, with a sign when negative.\<close>

fun dec :: "nat \<Rightarrow> string" where
  "dec n = (if n < 10 then [''0123456789'' ! n] else dec (n div 10) @ [''0123456789'' ! (n mod 10)])"

definition int_str :: "int \<Rightarrow> string" where
  "int_str i = (if i < 0 then ''-'' @ dec (nat (- i)) else dec (nat i))"

text \<open>
  How \<^verbatim>\<open>join\<close> turns an element into text: \<^verbatim>\<open>null\<close> and \<^verbatim>\<open>undefined\<close> give the
  empty string, an array joins its elements with commas, an object prints as
  \<^verbatim>\<open>[object Object]\<close>.
\<close>

fun join_str :: "jsval \<Rightarrow> string" where
  "join_str Undefined = []"
| "join_str Null = []"
| "join_str (JBool b) = (if b then ''true'' else ''false'')"
| "join_str (JNum n) = int_str n"
| "join_str (JStr s) = s"
| "join_str (JArr xs) = join '','' (map join_str xs)"
| "join_str (JObj fs) = ''[object Object]''"

section \<open>The device-auth payload\<close>

text \<open>
  The destructured argument of \<^verbatim>\<open>buildDeviceAuthPayload\<close>. Its only caller passes strings
  for every field but \<open>nonce\<close>, which comes from the challenge frame, and the clock's
  \<^verbatim>\<open>Date.now()\<close> for \<open>signedAtMs\<close>.
\<close>

record auth_args =
  deviceId :: string
  clientId :: string
  clientMode :: string
  role :: string
  scopes :: "string list"
  signedAtMs :: int
  token :: jsval
  nonce :: jsval

definition buildDeviceAuthPayload :: "auth_args \<Rightarrow> string" where
  "buildDeviceAuthPayload a =
     (let version = (if truthy (nonce a) then ''v2'' else ''v1'');
          parts = [version, deviceId a, clientId a, clientMode a, role a,
                   join '','' (scopes a), int_str (signedAtMs a),
                   join_str (js_or (token a) (JStr ''''))];
          parts' = (if version = ''v2'' then parts @ [join_str (nonce a)] else parts)
      in join ''|'' parts')"

section \<open>The platform: sockets, timers, continuations\<close>

text \<open>
  \<^verbatim>\<open>WebSocket\<close>, \<^verbatim>\<open>setTimeout\<close>, \<^verbatim>\<open>randomUUID\<close>, \<^verbatim>\<open>Date.now\<close> and the signing
  primitive of \<^verbatim>\<open>node:crypto\<close> belong to the platform. Sockets and timers are kept in
  tables indexed by their handles; the values \<^verbatim>\<open>randomUUID()\<close> and \<^verbatim>\<open>Date.now()\<close>
  return are carried by the event during which the code asks for them.
\<close>

type_synonym sock = nat
type_synonym timer = nat
type_synonym promise = nat

datatype ready_state = CONNECTING | OPEN | CLOSING | CLOSED

text \<open>
  A socket of the platform: its \<^verbatim>\<open>readyState\<close>, and the \<^verbatim>\<open>handshakeTimer\<close> constant
  of the \<^verbatim>\<open>_doConnect\<close> invocation that created it, which its \<^verbatim>\<open>onmessage\<close> and
  \<^verbatim>\<open>onclose\<close> handlers capture.
\<close>

record socket =
  readyState :: ready_state
  handshakeTimer :: timer

text \<open>
  \<^verbatim>\<open>new Error(message)\<close>, with the \<^verbatim>\<open>code\<close> and \<^verbatim>\<open>details\<close> properties the RPC error
  path assigns (\<open>Undefined\<close> on every other error). The message is the constructor's
  argument.
\<close>

datatype js_error = Error jsval jsval jsval

text \<open>
  The \<^verbatim>\<open>resolve\<close>/\<^verbatim>\<open>reject\<close> pair of a pending entry: the two functions of the promise
  \<^verbatim>\<open>call\<close> returns, or the pair \<^verbatim>\<open>_sendConnectRequest\<close> installs for the handshake
  request (a function that does nothing, and one that logs the error).
\<close>

datatype continuation = PromiseK promise | HandshakeK

datatype outcome = Resolved jsval | Rejected js_error

text \<open>A value of the \<^verbatim>\<open>_pending\<close> map: \<^verbatim>\<open>{ resolve, reject, timer }\<close>.\<close>

datatype entry = Entry (cont: continuation) (timer_of: timer)

text \<open>
  The four timer callbacks of the file: the timeout of \<^verbatim>\<open>call\<close> (capturing the id, the
  method and the promise's \<^verbatim>\<open>reject\<close>), the timeout of \<^verbatim>\<open>_sendConnectRequest\<close>
  (capturing the id), the handshake timer of \<^verbatim>\<open>_doConnect\<close>, and the reconnect timer of
  \<^verbatim>\<open>_scheduleReconnect\<close>.
\<close>

datatype timer_cb =
    CallTimeout string string promise
  | ConnectReqTimeout string
  | HandshakeTimeout
  | ReconnectFire

text \<open>A timer is armed with its delay and callback until it fires or is cleared.\<close>

datatype timer_slot = Armed nat timer_cb | Dead

text \<open>
  What the client does to the outside: invoking a continuation of a pending entry, writing
  a frame to a socket, emitting an event to subscribers, and the log line
  \<^verbatim>\<open>[gateway] reconnecting in ${delay}ms...\<close>. Other log lines are not recorded.
\<close>

datatype effect =
    Settle continuation outcome
  | Send sock jsval
  | Emit string jsval
  | ReconnectingIn nat

text \<open>
  The module's constants read from the environment (\<^verbatim>\<open>process.env.X || ""\<close>), whether
  \<^verbatim>\<open>new WebSocket(url)\<close> accepts the configured URL (it throws otherwise), and the
  signing function \<^verbatim>\<open>signPayload\<close>, whose Ed25519 primitive is the platform's:
  \<open>None\<close> when it throws on the key.
\<close>

record config =
  url_ok :: bool
  GATEWAY_TOKEN :: string
  GATEWAY_DEVICE_ID :: string
  GATEWAY_DEVICE_TOKEN :: string
  GATEWAY_DEVICE_PUBKEY :: string
  GATEWAY_DEVICE_PRIVKEY :: string
  signPayload :: "string \<Rightarrow> string \<Rightarrow> string option"

abbreviation RECONNECT_BASE_MS :: nat where "RECONNECT_BASE_MS \<equiv> 1000"
abbreviation RECONNECT_MAX_MS :: nat where "RECONNECT_MAX_MS \<equiv> 30000"
abbreviation CALL_TIMEOUT_MS :: nat where "CALL_TIMEOUT_MS \<equiv> 15000"
abbreviation HANDSHAKE_TIMEOUT_MS :: nat where "HANDSHAKE_TIMEOUT_MS \<equiv> 10000"

section \<open>The client\<close>

text \<open>
  The fields of \<^verbatim>\<open>GatewayClient\<close>, then the platform's tables and the effects so far.
  \<open>pending\<close> is the \<^verbatim>\<open>Map\<close> in insertion order.
\<close>

record state =
  ws :: "sock option"
  connected :: bool
  handshakeComplete :: bool
  pending :: "(string \<times> entry) list"
  reconnectDelay :: nat
  reconnectTimer :: "timer option"
  connectedAt :: "nat option"
  serverInfo :: jsval
  socks :: "socket list"
  timers :: "timer_slot list"
  nextPromise :: promise
  effects :: "effect list"

text \<open>The constructor.\<close>

definition init :: state where
  "init = \<lparr>ws = None, connected = False, handshakeComplete = False, pending = [],
           reconnectDelay = RECONNECT_BASE_MS, reconnectTimer = None, connectedAt = None,
           serverInfo = Null, socks = [], timers = [], nextPromise = 0, effects = []\<rparr>"

definition perform :: "effect \<Rightarrow> state \<Rightarrow> state" where
  "perform e s = s\<lparr>effects := effects s @ [e]\<rparr>"

text \<open>\<^verbatim>\<open>setTimeout(cb, delay)\<close> returns a new handle; \<^verbatim>\<open>clearTimeout(t)\<close> disarms it.\<close>

definition setTimeout :: "timer_cb \<Rightarrow> nat \<Rightarrow> state \<Rightarrow> timer \<times> state" where
  "setTimeout cb delay s = (length (timers s), s\<lparr>timers := timers s @ [Armed delay cb]\<rparr>)"

definition clearTimeout :: "timer \<Rightarrow> state \<Rightarrow> state" where
  "clearTimeout t s = s\<lparr>timers := (timers s)[t := Dead]\<rparr>"

text \<open>
  \<^verbatim>\<open>socket.close()\<close>: a socket that is connecting or open starts closing (its close event
  comes later); on a closing or closed socket nothing happens.
\<close>

definition set_ready :: "sock \<Rightarrow> ready_state \<Rightarrow> state \<Rightarrow> state" where
  "set_ready k r s = s\<lparr>socks := (socks s)[k := (socks s ! k)\<lparr>readyState := r\<rparr>]\<rparr>"

definition sock_close :: "sock \<Rightarrow> state \<Rightarrow> state" where
  "sock_close k s =
     (if k < length (socks s) \<and> readyState (socks s ! k) \<in> {CONNECTING, OPEN}
      then set_ready k CLOSING s else s)"

text \<open>\<^verbatim>\<open>this._ws?.close()\<close>\<close>

definition close_current :: "state \<Rightarrow> state" where
  "close_current s = (case ws s of Some k \<Rightarrow> sock_close k s | None \<Rightarrow> s)"

definition isConnected :: "state \<Rightarrow> bool" where
  "isConnected s = (connected s \<and> handshakeComplete s)"

definition send :: "jsval \<Rightarrow> state \<Rightarrow> state" where
  "send obj s =
     (case ws s of
        Some k \<Rightarrow>
          if k < length (socks s) \<and> readyState (socks s ! k) = OPEN
          then perform (Send k obj) s else s
      | None \<Rightarrow> s)"

definition scheduleReconnect :: "state \<Rightarrow> state" where
  "scheduleReconnect s =
     (if reconnectTimer s \<noteq> None then s
      else
        let delay = reconnectDelay s;
            s1 = s\<lparr>reconnectDelay := min (reconnectDelay s * 2) RECONNECT_MAX_MS\<rparr>;
            s2 = perform (ReconnectingIn delay) s1;
            (t, s3) = setTimeout ReconnectFire delay s2
        in s3\<lparr>reconnectTimer := Some t\<rparr>)"

text \<open>
  \<^verbatim>\<open>_doConnect\<close>. The new socket enters the table once its handlers are attached, with
  the handshake timer they capture.
\<close>

definition doConnect :: "config \<Rightarrow> state \<Rightarrow> state" where
  "doConnect cfg s =
     (let s1 = (case ws s of Some k \<Rightarrow> (sock_close k s)\<lparr>ws := None\<rparr> | None \<Rightarrow> s)
      in if \<not> url_ok cfg then scheduleReconnect s1
         else
           let k = length (socks s1);
               s2 = s1\<lparr>ws := Some k\<rparr>;
               (t, s3) = setTimeout HandshakeTimeout HANDSHAKE_TIMEOUT_MS s2
           in s3\<lparr>socks := socks s3 @ [\<lparr>readyState = CONNECTING, handshakeTimer = t\<rparr>]\<rparr>)"

definition connect :: "config \<Rightarrow> state \<Rightarrow> state" where
  "connect cfg s = doConnect cfg s"

text \<open>
  \<^verbatim>\<open>call(method, params)\<close>, with the id \<^verbatim>\<open>randomUUID()\<close> returns. The error is the
  rejection of the returned promise when the client is not connected; otherwise the
  promise and the new state.
\<close>

definition call :: "string \<Rightarrow> jsval \<Rightarrow> string \<Rightarrow> state \<Rightarrow> js_error + promise \<times> state" where
  "call method params uuid s =
     (if \<not> isConnected s
      then Inl (Error (JStr (''Gateway not connected (calling '' @ method @ '')'')) Undefined Undefined)
      else
        let p = nextPromise s;
            s1 = s\<lparr>nextPromise := Suc p\<rparr>;
            (t, s2) = setTimeout (CallTimeout uuid method p) CALL_TIMEOUT_MS s1;
            s3 = s2\<lparr>pending := AList.update uuid (Entry (PromiseK p) t) (pending s2)\<rparr>
        in Inr (p, send (json_obj [(''type'', JStr ''req''), (''id'', JStr uuid),
                                   (''method'', JStr method), (''params'', params)]) s3))"

definition disconnect :: "state \<Rightarrow> state" where
  "disconnect s =
     (let s1 = (case reconnectTimer s of
                  Some t \<Rightarrow> (clearTimeout t s)\<lparr>reconnectTimer := None\<rparr>
                | None \<Rightarrow> s);
          s2 = (case ws s1 of Some k \<Rightarrow> (sock_close k s1)\<lparr>ws := None\<rparr> | None \<Rightarrow> s1)
      in s2\<lparr>connected := False, handshakeComplete := False\<rparr>)"

text \<open>
  \<^verbatim>\<open>this._pending.get(key)\<close> and \<^verbatim>\<open>this._pending.delete(key)\<close> for a key read from a
  frame: the keys of the map are strings, so only a string finds an entry.
\<close>

definition pending_get :: "jsval \<Rightarrow> state \<Rightarrow> entry option" where
  "pending_get key s = (case key of JStr i \<Rightarrow> map_of (pending s) i | _ \<Rightarrow> None)"

definition pending_delete :: "jsval \<Rightarrow> state \<Rightarrow> state" where
  "pending_delete key s =
     (case key of JStr i \<Rightarrow> s\<lparr>pending := AList.delete i (pending s)\<rparr> | _ \<Rightarrow> s)"

text \<open>
  The block the three response paths share: look the entry up, and if there is one clear
  its timer, delete it and invoke its continuation.
\<close>

definition settle_pending :: "jsval \<Rightarrow> outcome \<Rightarrow> state \<Rightarrow> state" where
  "settle_pending key out s =
     (case pending_get key s of
        None \<Rightarrow> s
      | Some (Entry c t) \<Rightarrow> perform (Settle c out) (pending_delete key (clearTimeout t s)))"

definition onopen :: "state \<Rightarrow> state" where
  "onopen s = s\<lparr>connected := True, reconnectDelay := RECONNECT_BASE_MS\<rparr>"

text \<open>The request frame of the handshake.\<close>

definition connect_frame :: "string \<Rightarrow> jsval \<Rightarrow> jsval" where
  "connect_frame uuid params =
     json_obj [(''type'', JStr ''req''), (''id'', JStr uuid), (''method'', JStr ''connect''),
               (''params'', params)]"

text \<open>
  The \<^verbatim>\<open>connectParams\<close> object \<^verbatim>\<open>_sendConnectRequest\<close> builds from the challenge's
  nonce and the clock: \<open>None\<close> when \<^verbatim>\<open>signPayload\<close> throws.
\<close>

definition connectParams :: "config \<Rightarrow> jsval \<Rightarrow> nat \<Rightarrow> jsval option" where
  "connectParams cfg nonce_in now =
     (let useDeviceAuth = (GATEWAY_DEVICE_ID cfg \<noteq> [] \<and> GATEWAY_DEVICE_TOKEN cfg \<noteq> []
                           \<and> GATEWAY_DEVICE_PRIVKEY cfg \<noteq> []);
          role_v = ''operator'';
          scopes_v = [''operator.read'', ''operator.write'', ''operator.admin''];
          params =
            [(''minProtocol'', JNum 3), (''maxProtocol'', JNum 3),
             (''client'', json_obj [(''id'', JStr ''gateway-client''),
                                    (''displayName'', JStr ''xavier-monitor''),
                                    (''version'', JStr ''1.0.0''),
                                    (''platform'', JStr ''node''),
                                    (''mode'', JStr ''backend'')]),
             (''auth'', json_obj [(''token'',
                  if useDeviceAuth then JStr (GATEWAY_DEVICE_TOKEN cfg)
                  else js_or (JStr (GATEWAY_TOKEN cfg)) Undefined)])]
      in if useDeviceAuth then
           let signedAt = now;
               payload = buildDeviceAuthPayload
                 \<lparr>deviceId = GATEWAY_DEVICE_ID cfg, clientId = ''gateway-client'',
                  clientMode = ''backend'', role = role_v, scopes = scopes_v,
                  signedAtMs = int signedAt, token = JStr (GATEWAY_DEVICE_TOKEN cfg),
                  nonce = js_or nonce_in Undefined\<rparr>
           in case signPayload cfg (GATEWAY_DEVICE_PRIVKEY cfg) payload of
                None \<Rightarrow> None
              | Some signature \<Rightarrow>
                  Some (json_obj (params @
                    [(''device'', json_obj [(''id'', JStr (GATEWAY_DEVICE_ID cfg)),
                                            (''publicKey'', JStr (GATEWAY_DEVICE_PUBKEY cfg)),
                                            (''signature'', JStr signature),
                                            (''signedAt'', JNum (int signedAt)),
                                            (''nonce'', js_or nonce_in Undefined)]),
                     (''role'', JStr role_v),
                     (''scopes'', JArr (map JStr scopes_v))]))
         else Some (json_obj params))"

text \<open>
  \<^verbatim>\<open>_sendConnectRequest(nonce)\<close>, with the id and the clock it reads: the pending entry
  is set first; when signing throws, the request is not sent and the entry stays.
\<close>

definition sendConnectRequest :: "config \<Rightarrow> jsval \<Rightarrow> string \<Rightarrow> nat \<Rightarrow> state \<Rightarrow> state" where
  "sendConnectRequest cfg nonce_in uuid now s =
     (let (t, s1) = setTimeout (ConnectReqTimeout uuid) HANDSHAKE_TIMEOUT_MS s;
          s2 = s1\<lparr>pending := AList.update uuid (Entry HandshakeK t) (pending s1)\<rparr>
      in case connectParams cfg nonce_in now of
           None \<Rightarrow> s2
         | Some params \<Rightarrow> send (connect_frame uuid params) s2)"

text \<open>
  The \<^verbatim>\<open>res\<close> branch of \<^verbatim>\<open>onmessage\<close>, for the socket whose handshake timer is \<open>hs\<close>:
  the handshake response, the handshake error, the normal RPC response.
\<close>

definition onResponse :: "timer \<Rightarrow> jsval \<Rightarrow> nat \<Rightarrow> state \<Rightarrow> state" where
  "onResponse hs msg now s =
     (let payload = field msg ''payload''; err = field msg ''error'' in
      if \<not> handshakeComplete s \<and> field payload ''type'' = JStr ''hello-ok'' then
        let s1 = clearTimeout hs s;
            s2 = s1\<lparr>handshakeComplete := True, connectedAt := Some now,
                    serverInfo := js_or (field payload ''server'') Null\<rparr>;
            s3 = perform (Emit ''connected'' payload) s2
        in settle_pending (field msg ''id'') (Resolved payload) s3
      else if \<not> handshakeComplete s \<and> field msg ''ok'' = JBool False then
        let s1 = clearTimeout hs s;
            s2 = settle_pending (field msg ''id'')
                   (Rejected (Error (js_or (field err ''message'') (JStr ''Handshake failed''))
                                    Undefined Undefined)) s1
        in close_current s2
      else
        settle_pending (field msg ''id'')
          (if truthy (field msg ''ok'') then Resolved payload
           else Rejected (Error (js_or (field err ''message'') (JStr ''RPC error''))
                                (field err ''code'') (field err ''details''))) s)"

text \<open>
  \<^verbatim>\<open>onmessage\<close>: \<open>data\<close> is what \<^verbatim>\<open>JSON.parse\<close> returns, \<open>None\<close> when it throws.
  Reading \<^verbatim>\<open>msg.type\<close> of \<^verbatim>\<open>null\<close> throws before anything is changed.
\<close>

definition onmessage :: "config \<Rightarrow> timer \<Rightarrow> jsval option \<Rightarrow> string \<Rightarrow> nat \<Rightarrow> state \<Rightarrow> state" where
  "onmessage cfg hs data uuid now s =
     (case data of
        None \<Rightarrow> s
      | Some msg \<Rightarrow>
          if msg = Null \<or> msg = Undefined then s
          else if field msg ''type'' = JStr ''event'' \<and> field msg ''event'' = JStr ''connect.challenge''
          then sendConnectRequest cfg (field (field msg ''payload'') ''nonce'') uuid now s
          else if field msg ''type'' = JStr ''res'' then onResponse hs msg now s
          else if field msg ''type'' = JStr ''event'' then perform (Emit ''event'' msg) s
          else s)"

text \<open>The body of the loop of \<^verbatim>\<open>onclose\<close> over the pending entries.\<close>

fun reject_closed :: "string \<times> entry \<Rightarrow> state \<Rightarrow> state" where
  "reject_closed (i, Entry c t) s =
     perform (Settle c (Rejected (Error (JStr ''Gateway connection closed'') Undefined Undefined)))
       (clearTimeout t s)"

definition onclose :: "timer \<Rightarrow> state \<Rightarrow> state" where
  "onclose hs s =
     (let s1 = clearTimeout hs s;
          wasConnected = handshakeComplete s1;
          s2 = s1\<lparr>connected := False, handshakeComplete := False, connectedAt := None,
                  serverInfo := Null\<rparr>;
          s3 = fold reject_closed (pending s2) s2;
          s4 = s3\<lparr>pending := []\<rparr>;
          s5 = (if wasConnected then perform (Emit ''disconnected'' Undefined) s4 else s4)
      in scheduleReconnect s5)"

text \<open>The timer callbacks.\<close>

fun run_timer :: "config \<Rightarrow> timer_cb \<Rightarrow> state \<Rightarrow> state" where
  "run_timer cfg (CallTimeout i method p) s =
     perform (Settle (PromiseK p) (Rejected (Error
         (JStr (''Gateway RPC timeout: '' @ method @ '' ('' @ dec CALL_TIMEOUT_MS @ ''ms)''))
         Undefined Undefined)))
       (s\<lparr>pending := AList.delete i (pending s)\<rparr>)"
| "run_timer cfg (ConnectReqTimeout i) s =
     close_current (s\<lparr>pending := AList.delete i (pending s)\<rparr>)"
| "run_timer cfg HandshakeTimeout s =
     (if \<not> handshakeComplete s then close_current s else s)"
| "run_timer cfg ReconnectFire s = doConnect cfg (s\<lparr>reconnectTimer := None\<rparr>)"

section \<open>Events\<close>

text \<open>
  What can happen to the client: a call of its public interface, an event of a socket, a
  timer firing. The platform delivers an open event only to a connecting socket, a
  message only to an open socket, one close event to a socket that is not yet closed, and
  fires only armed timers; \<open>step\<close> leaves the state unchanged otherwise.
\<close>

datatype event =
    Connect
  | Call string jsval string
  | Disconnect
  | SockOpen sock
  | SockMessage sock "jsval option" string nat
  | SockError sock
  | SockClose sock
  | TimerFire timer

fun step :: "config \<Rightarrow> state \<Rightarrow> event \<Rightarrow> state" where
  "step cfg s Connect = connect cfg s"
| "step cfg s (Call method params uuid) =
     (case call method params uuid s of Inl e \<Rightarrow> s | Inr (p, s') \<Rightarrow> s')"
| "step cfg s Disconnect = disconnect s"
| "step cfg s (SockOpen k) =
     (if k < length (socks s) \<and> readyState (socks s ! k) = CONNECTING
      then onopen (set_ready k OPEN s) else s)"
| "step cfg s (SockMessage k data uuid now) =
     (if k < length (socks s) \<and> readyState (socks s ! k) = OPEN
      then onmessage cfg (handshakeTimer (socks s ! k)) data uuid now s else s)"
| "step cfg s (SockError k) = s"
| "step cfg s (SockClose k) =
     (if k < length (socks s) \<and> readyState (socks s ! k) \<noteq> CLOSED
      then onclose (handshakeTimer (socks s ! k)) (set_ready k CLOSED s) else s)"
| "step cfg s (TimerFire t) =
     (if t < length (timers s) then
        (case timers s ! t of
           Armed d cb \<Rightarrow> run_timer cfg cb (s\<lparr>timers := (timers s)[t := Dead]\<rparr>)
         | Dead \<Rightarrow> s)
      else s)"

fun run :: "config \<Rightarrow> state \<Rightarrow> event list \<Rightarrow> state" where
  "run cfg s [] = s"
| "run cfg s (e # es) = run cfg (step cfg s e) es"

text \<open>
  An id is generated fresh: \<^verbatim>\<open>randomUUID()\<close> does not return an id that is in the
  pending map at that moment.
\<close>

fun uuid_fresh :: "state \<Rightarrow> event \<Rightarrow> bool" where
  "uuid_fresh s (Call method params uuid) = (uuid \<notin> fst ` set (pending s))"
| "uuid_fresh s (SockMessage k data uuid now) = (uuid \<notin> fst ` set (pending s))"
| "uuid_fresh s e = True"

fun fresh_run :: "config \<Rightarrow> state \<Rightarrow> event list \<Rightarrow> bool" where
  "fresh_run cfg s [] = True"
| "fresh_run cfg s (e # es) = (uuid_fresh s e \<and> fresh_run cfg (step cfg s e) es)"

section \<open>Observations on states and runs\<close>

text \<open>The error every entry is rejected with when a socket's close event arrives.\<close>

definition closed_error :: js_error where
  "closed_error = Error (JStr ''Gateway connection closed'') Undefined Undefined"

text \<open>The error of a call's timeout.\<close>

definition timeout_error :: "string \<Rightarrow> js_error" where
  "timeout_error method =
     Error (JStr (''Gateway RPC timeout: '' @ method @ '' (15000ms)'')) Undefined Undefined"

text \<open>The invocations of the continuations of promise \<open>p\<close> among some effects.\<close>

fun is_settle_of :: "promise \<Rightarrow> effect \<Rightarrow> bool" where
  "is_settle_of p (Settle (PromiseK q) out) = (q = p)"
| "is_settle_of p e = False"

definition settles :: "promise \<Rightarrow> state \<Rightarrow> effect list" where
  "settles p s = filter (is_settle_of p) (effects s)"

fun is_settle :: "effect \<Rightarrow> bool" where
  "is_settle (Settle c out) = True"
| "is_settle e = False"

text \<open>The entries of the pending map that hold promise \<open>p\<close>.\<close>

definition pending_of :: "promise \<Rightarrow> state \<Rightarrow> (string \<times> entry) list" where
  "pending_of p s = filter (\<lambda>ie. cont (snd ie) = PromiseK p) (pending s)"

text \<open>The effects a step adds.\<close>

definition new_effects :: "state \<Rightarrow> state \<Rightarrow> effect list" where
  "new_effects s s' = drop (length (effects s)) (effects s')"

text \<open>The armed reconnect timers, and the delays logged by \<^verbatim>\<open>_scheduleReconnect\<close>.\<close>

fun is_reconnect :: "timer_slot \<Rightarrow> bool" where
  "is_reconnect (Armed d ReconnectFire) = True"
| "is_reconnect sl = False"


fun delay_of :: "effect \<Rightarrow> nat list" where
  "delay_of (ReconnectingIn d) = [d]"
| "delay_of e = []"

definition delays :: "state \<Rightarrow> nat list" where
  "delays s = concat (map delay_of (effects s))"

text \<open>
  A run of \<open>n\<close> connection attempts that fail before the socket opens, after
  \<^verbatim>\<open>connect()\<close> on a new client: attempt \<open>k\<close> uses socket \<open>k\<close>, whose close event
  schedules reconnect timer \<open>2 * k + 1\<close>, which fires.
\<close>

definition failed_attempts :: "nat \<Rightarrow> event list" where
  "failed_attempts n = Connect # concat (map (\<lambda>k. [SockClose k, TimerFire (2 * k + 1)]) [0..<n])"

section \<open>Example frames and configuration\<close>

definition example_config :: config where
  "example_config =
     \<lparr>url_ok = True, GATEWAY_TOKEN = ''secret'', GATEWAY_DEVICE_ID = ''d1'',
      GATEWAY_DEVICE_TOKEN = ''tok'', GATEWAY_DEVICE_PUBKEY = ''pub'',
      GATEWAY_DEVICE_PRIVKEY = ''priv'', signPayload = (\<lambda>key payload. Some (''signed:'' @ payload))\<rparr>"

definition challenge_frame :: "jsval \<Rightarrow> jsval" where
  "challenge_frame payload =
     JObj [(''type'', JStr ''event''), (''event'', JStr ''connect.challenge''), (''payload'', payload)]"

definition response_frame :: "string \<Rightarrow> jsval \<Rightarrow> jsval \<Rightarrow> jsval" where
  "response_frame i ok payload =
     JObj [(''type'', JStr ''res''), (''id'', JStr i), (''ok'', ok), (''payload'', payload)]"

definition hello_frame :: "string \<Rightarrow> jsval" where
  "hello_frame i = response_frame i (JBool True) (JObj [(''type'', JStr ''hello-ok'')])"

text \<open>The events that bring a new client to READY on socket 0, with handshake id h.\<close>

definition ready_events :: "event list" where
  "ready_events =
     [Connect, SockOpen 0,
      SockMessage 0 (Some (challenge_frame (JObj [(''nonce'', JStr ''n1'')]))) ''h'' 5,
      SockMessage 0 (Some (hello_frame ''h'')) ''unused'' 6]"

text \<open>The state of that client, with its effects so far.\<close>

definition ready_effects :: "effect list" where
  "ready_effects = effects (run example_config init ready_events)"

definition ready_state :: state where
  "ready_state =
     \<lparr>ws = Some 0, connected = True, handshakeComplete = True, pending = [],
      reconnectDelay = RECONNECT_BASE_MS, reconnectTimer = None, connectedAt = Some 6,
      serverInfo = Null, socks = [\<lparr>readyState = OPEN, handshakeTimer = 0\<rparr>],
      timers = [Dead, Dead], nextPromise = 0, effects = ready_effects\<rparr>"

text \<open>
  The delay the specification gives for the reconnect after \<open>n\<close> consecutive failures:
  1000 ms doubled \<open>n\<close> times, capped at 30000 ms.
\<close>

definition backoff :: "nat \<Rightarrow> nat" where
  "backoff n = min (RECONNECT_BASE_MS * 2 ^ n) RECONNECT_MAX_MS"

text \<open>The state of a new client after \<open>n\<close> attempts that failed before the socket opened.\<close>

definition failed_state :: "nat \<Rightarrow> state" where
  "failed_state n =
     \<lparr>ws = Some n, connected = False, handshakeComplete = False, pending = [],
      reconnectDelay = backoff n, reconnectTimer = None, connectedAt = None, serverInfo = Null,
      socks = map (\<lambda>k. \<lparr>readyState = CLOSED, handshakeTimer = 2 * k\<rparr>) [0..<n]
              @ [\<lparr>readyState = CONNECTING, handshakeTimer = 2 * n\<rparr>],
      timers = replicate (2 * n) Dead @ [Armed HANDSHAKE_TIMEOUT_MS HandshakeTimeout],
      nextPromise = 0, effects = map (\<lambda>k. ReconnectingIn (backoff k)) [0..<n]\<rparr>"

section \<open>Invariants of the client\<close>

text \<open>
  The timer slot that belongs to a pending entry: the timeout \<^verbatim>\<open>call\<close> armed for this id
  and promise, or the timeout \<^verbatim>\<open>_sendConnectRequest\<close> armed for this id.
\<close>

fun slot_matches :: "string \<Rightarrow> entry \<Rightarrow> timer_slot \<Rightarrow> bool" where
  "slot_matches i (Entry (PromiseK p) t) (Armed d (CallTimeout j m q)) =
     (d = CALL_TIMEOUT_MS \<and> j = i \<and> q = p)"
| "slot_matches i (Entry HandshakeK t) (Armed d (ConnectReqTimeout j)) =
     (d = HANDSHAKE_TIMEOUT_MS \<and> j = i)"
| "slot_matches i e sl = False"

text \<open>
  What an armed timer refers to: the timeout of an entry to that entry, still in the map
  under its id; a reconnect timer to the client's \<^verbatim>\<open>_reconnectTimer\<close> field.
\<close>

fun owner_ok :: "(string \<times> entry) list \<Rightarrow> timer option \<Rightarrow> timer \<Rightarrow> timer_slot \<Rightarrow> bool" where
  "owner_ok pend rt t (Armed d (CallTimeout i m p)) = (map_of pend i = Some (Entry (PromiseK p) t))"
| "owner_ok pend rt t (Armed d (ConnectReqTimeout i)) = (map_of pend i = Some (Entry HandshakeK t))"
| "owner_ok pend rt t (Armed d ReconnectFire) = (rt = Some t)"
| "owner_ok pend rt t sl = True"

fun hs_or_dead :: "timer_slot \<Rightarrow> bool" where
  "hs_or_dead Dead = True"
| "hs_or_dead (Armed d HandshakeTimeout) = True"
| "hs_or_dead sl = False"

text \<open>
  The pending map, the timers, the reconnect timer field, the next promise and the
  handshake timers of the sockets fit together.
\<close>

definition table_ok ::
  "(string \<times> entry) list \<Rightarrow> timer_slot list \<Rightarrow> timer option \<Rightarrow> promise \<Rightarrow> timer set \<Rightarrow> bool" where
  "table_ok pend tms rt np hs =
     (distinct (map fst pend)
      \<and> (\<forall>ie \<in> set pend. timer_of (snd ie) < length tms
            \<and> slot_matches (fst ie) (snd ie) (tms ! timer_of (snd ie))
            \<and> (\<forall>p. cont (snd ie) = PromiseK p \<longrightarrow> p < np))
      \<and> (\<forall>t < length tms. owner_ok pend rt t (tms ! t))
      \<and> (\<forall>t. rt = Some t \<longrightarrow> t < length tms \<and> is_reconnect (tms ! t))
      \<and> (\<forall>h \<in> hs. h < length tms \<and> hs_or_dead (tms ! h)))"

text \<open>
  Every promise handed out is either in the pending map and not yet settled, or out of the
  map and settled exactly once; no other promise has been settled.
\<close>

definition counted :: "(string \<times> entry) list \<Rightarrow> effect list \<Rightarrow> promise \<Rightarrow> bool" where
  "counted pend effs np =
     (\<forall>p. (p < np \<longrightarrow>
             length (filter (\<lambda>ie. cont (snd ie) = PromiseK p) pend)
               + length (filter (is_settle_of p) effs) = 1)
          \<and> (np \<le> p \<longrightarrow> filter (is_settle_of p) effs = []))"

definition consistent :: "state \<Rightarrow> bool" where
  "consistent s =
     (table_ok (pending s) (timers s) (reconnectTimer s) (nextPromise s)
        (handshakeTimer ` set (socks s))
      \<and> counted (pending s) (effects s) (nextPromise s))"

text \<open>The timeout timers of promise \<open>p\<close>, and the effects that resolve a continuation.\<close>

fun is_call_for :: "promise \<Rightarrow> timer_slot \<Rightarrow> bool" where
  "is_call_for p (Armed d (CallTimeout i m q)) = (q = p)"
| "is_call_for p sl = False"

text \<open>
  From \<open>s\<close> to \<open>s'\<close> no promise is taken back, no timeout timer of promise \<open>p\<close> is armed,
  and the effects grow by effects of \<open>A\<close> only.
\<close>

definition extends :: "promise \<Rightarrow> effect set \<Rightarrow> state \<Rightarrow> state \<Rightarrow> bool" where
  "extends p A s s' =
     (nextPromise s \<le> nextPromise s'
      \<and> (\<forall>x \<in> set (timers s'). x \<in> set (timers s) \<or> \<not> is_call_for p x)
      \<and> (\<exists>es. effects s' = effects s @ es \<and> set es \<subseteq> A))"

text \<open>The timeout timers of promise \<open>p\<close> are those \<^verbatim>\<open>call\<close> armed for this id and method.\<close>

definition timer_of_call :: "promise \<Rightarrow> string \<Rightarrow> string \<Rightarrow> state \<Rightarrow> bool" where
  "timer_of_call p uuid method s =
     (p < nextPromise s
      \<and> (\<forall>x \<in> set (timers s). is_call_for p x \<longrightarrow>
            x = Armed CALL_TIMEOUT_MS (CallTimeout uuid method p)))"

text \<open>The resolutions a response frame may cause in state \<open>s\<close>.\<close>

definition resolutions_by :: "jsval \<Rightarrow> state \<Rightarrow> effect set" where
  "resolutions_by msg s =
     {Settle c (Resolved (field msg ''payload'')) | c t.
        pending_get (field msg ''id'') s = Some (Entry c t)}"

fun is_resolve :: "effect \<Rightarrow> bool" where
  "is_resolve (Settle c (Resolved v)) = True"
| "is_resolve e = False"

text \<open>
  The current socket is a socket of the platform, and every socket that is connecting or
  open is the current one: \<^verbatim>\<open>close()\<close> has been called on every socket that was replaced.
\<close>

fun live :: "ready_state \<Rightarrow> bool" where
  "live CONNECTING = True"
| "live OPEN = True"
| "live r = False"

definition sockets_ok :: "state \<Rightarrow> bool" where
  "sockets_ok s =
     ((\<forall>k. ws s = Some k \<longrightarrow> k < length (socks s))
      \<and> (\<forall>k < length (socks s). live (readyState (socks s ! k)) \<longrightarrow> ws s = Some k))"





section \<open>Theorems\<close>

declare dec.simps [simp del]

lemmas model_defs = perform_def setTimeout_def clearTimeout_def set_ready_def sock_close_def
  close_current_def isConnected_def send_def scheduleReconnect_def doConnect_def connect_def call_def
  disconnect_def pending_get_def pending_delete_def settle_pending_def onopen_def connect_frame_def
  connectParams_def sendConnectRequest_def onResponse_def onmessage_def onclose_def json_obj_def js_or_def
  buildDeviceAuthPayload_def int_str_def Let_def

lemmas example_defs = example_config_def challenge_frame_def response_frame_def hello_frame_def
  ready_events_def

lemma dec_small: "n < 10 \<Longrightarrow> dec n = [''0123456789'' ! n]"
  by (simp add: dec.simps [of n])

lemma dec_large: "10 \<le> n \<Longrightarrow> dec n = dec (n div 10) @ [''0123456789'' ! (n mod 10)]"
  by (simp add: dec.simps [of n])

lemma dec_15000: "dec CALL_TIMEOUT_MS = ''15000''"
  by (simp add: dec_small dec_large)

lemma dec_1000: "dec 1000 = ''1000''"
  by (simp add: dec_small dec_large)

subsection \<open>The close handler\<close>

lemma reject_closed_eq:
  "reject_closed ie s =
     s\<lparr>timers := (timers s)[timer_of (snd ie) := Dead],
       effects := effects s @ [Settle (cont (snd ie)) (Rejected closed_error)]\<rparr>"
  by (cases ie; cases "snd ie") (simp add: perform_def clearTimeout_def closed_error_def)

lemma fold_reject_closed:
  "fold reject_closed xs s =
     s\<lparr>timers := fold (\<lambda>ie ts. ts[timer_of (snd ie) := Dead]) xs (timers s),
       effects := effects s @ map (\<lambda>ie. Settle (cont (snd ie)) (Rejected closed_error)) xs\<rparr>"
proof (induction xs arbitrary: s)
  case Nil
  show ?case by simp
next
  case (Cons x xs)
  have "fold reject_closed (x # xs) s = fold reject_closed xs (reject_closed x s)"
    by simp
  also have "\<dots> = (reject_closed x s)
      \<lparr>timers := fold (\<lambda>ie ts. ts[timer_of (snd ie) := Dead]) xs (timers (reject_closed x s)),
       effects := effects (reject_closed x s)
          @ map (\<lambda>ie. Settle (cont (snd ie)) (Rejected closed_error)) xs\<rparr>"
    by (rule Cons.IH)
  also have "\<dots> = s
      \<lparr>timers := fold (\<lambda>ie ts. ts[timer_of (snd ie) := Dead]) (x # xs) (timers s),
       effects := effects s @ map (\<lambda>ie. Settle (cont (snd ie)) (Rejected closed_error)) (x # xs)\<rparr>"
    unfolding reject_closed_eq [of x s] by simp
  finally show ?case .
qed

lemma length_fold_clear [simp]:
  "length (fold (\<lambda>ie ts. ts[timer_of (snd ie) := Dead]) xs ts) = length ts"
  by (induction xs arbitrary: ts) auto

lemma nth_fold_clear:
  "t < length ts \<Longrightarrow>
   fold (\<lambda>ie ts. ts[timer_of (snd ie) := Dead]) xs ts ! t =
     (if t \<in> (\<lambda>ie. timer_of (snd ie)) ` set xs then Dead else ts ! t)"
proof (induction xs arbitrary: ts)
  case Nil
  show ?case by simp
next
  case (Cons x xs)
  have "fold (\<lambda>ie ts. ts[timer_of (snd ie) := Dead]) (x # xs) ts ! t
        = fold (\<lambda>ie ts. ts[timer_of (snd ie) := Dead]) xs (ts[timer_of (snd x) := Dead]) ! t"
    by simp
  also have "\<dots> = (if t \<in> (\<lambda>ie. timer_of (snd ie)) ` set xs then Dead
                    else ts[timer_of (snd x) := Dead] ! t)"
    using Cons.prems by (simp add: Cons.IH)
  finally show ?case
    using Cons.prems by (auto simp: nth_list_update)
qed

lemma filter_settle_map:
  "filter is_settle (map (\<lambda>ie. Settle (f ie) (g ie)) xs) = map (\<lambda>ie. Settle (f ie) (g ie)) xs"
  by (induction xs) auto

lemma onclose_pending: "pending (onclose hs s) = []"
  by (simp add: onclose_def fold_reject_closed scheduleReconnect_def perform_def setTimeout_def
      clearTimeout_def Let_def)

lemma onclose_effects:
  "effects (onclose hs s) =
     effects s @ map (\<lambda>ie. Settle (cont (snd ie)) (Rejected closed_error)) (pending s)
       @ (if handshakeComplete s then [Emit ''disconnected'' Undefined] else [])
       @ (if reconnectTimer s = None then [ReconnectingIn (reconnectDelay s)] else [])"
  by (simp add: onclose_def fold_reject_closed scheduleReconnect_def perform_def setTimeout_def
      clearTimeout_def Let_def)

lemma onclose_timers:
  "timers (onclose hs s) =
     fold (\<lambda>ie ts. ts[timer_of (snd ie) := Dead]) (pending s) ((timers s)[hs := Dead])
       @ (if reconnectTimer s = None then [Armed (reconnectDelay s) ReconnectFire] else [])"
  by (simp add: onclose_def fold_reject_closed scheduleReconnect_def perform_def setTimeout_def
      clearTimeout_def Let_def)

lemma run_append: "run cfg s (es @ es') = run cfg (run cfg s es) es'"
  by (induction es arbitrary: s) auto

lemma run_ready: "run example_config init ready_events = ready_state"
  by (simp add: ready_state_def ready_effects_def init_def model_defs example_defs dec_small)

subsection \<open>Timeout of a call\<close>

lemma call_Inr:
  "isConnected s \<Longrightarrow>
   call method params uuid s =
     Inr (nextPromise s,
          send (json_obj [(''type'', JStr ''req''), (''id'', JStr uuid),
                          (''method'', JStr method), (''params'', params)])
            (s\<lparr>nextPromise := Suc (nextPromise s),
               timers := timers s @ [Armed CALL_TIMEOUT_MS (CallTimeout uuid method (nextPromise s))],
               pending := AList.update uuid (Entry (PromiseK (nextPromise s)) (length (timers s)))
                            (pending s)\<rparr>))"
  by (simp add: call_def setTimeout_def Let_def)

lemma send_fields [simp]:
  "pending (send obj s) = pending s" "timers (send obj s) = timers s"
  "nextPromise (send obj s) = nextPromise s" "socks (send obj s) = socks s"
  "ws (send obj s) = ws s" "reconnectTimer (send obj s) = reconnectTimer s"
  "reconnectDelay (send obj s) = reconnectDelay s"
  "handshakeComplete (send obj s) = handshakeComplete s" "connected (send obj s) = connected s"
  by (simp_all add: send_def perform_def split: option.splits)

lemma run_ready_call:
  "run example_config init (ready_events @ [Call ''sessions.list'' (JObj []) ''u1'']) =
     send (json_obj [(''type'', JStr ''req''), (''id'', JStr ''u1''),
                     (''method'', JStr ''sessions.list''), (''params'', JObj [])])
       (ready_state\<lparr>nextPromise := 1,
          timers := [Dead, Dead, Armed CALL_TIMEOUT_MS (CallTimeout ''u1'' ''sessions.list'' 0)],
          pending := [(''u1'', Entry (PromiseK 0) 2)]\<rparr>)"
  by (simp add: run_append run_ready call_Inr isConnected_def ready_state_def numeral_2_eq_2)

lemma join_str_or_empty: "join_str (js_or t (JStr '''')) = (if truthy t then join_str t else '''')"
  by (simp add: js_or_def)

text \<open>
  C4: with deviceId d1, clientId gateway-client, clientMode backend, role operator, scopes
  [a, b], signedAtMs 1000 and token tok, \<open>buildDeviceAuthPayload\<close> returns
  \<open>v1|d1|gateway-client|backend|operator|a,b|1000|tok\<close> when the nonce is absent and
  \<open>v2|d1|gateway-client|backend|operator|a,b|1000|tok|n1\<close> when the nonce is \<open>n1\<close>. In general
  the payload is the fields separated by pipes, the version tag is v2 and the nonce is the
  last field exactly when a nonce is present (truthy, as the code tests it), and the scopes
  are joined by commas in the given order.
\<close>

theorem buildDeviceAuthPayload_format:
  "buildDeviceAuthPayload \<lparr>deviceId = ''d1'', clientId = ''gateway-client'',
      clientMode = ''backend'', role = ''operator'', scopes = [''a'', ''b''],
      signedAtMs = 1000, token = JStr ''tok'', nonce = Undefined\<rparr>
     = ''v1|d1|gateway-client|backend|operator|a,b|1000|tok''
   \<and> buildDeviceAuthPayload \<lparr>deviceId = ''d1'', clientId = ''gateway-client'',
      clientMode = ''backend'', role = ''operator'', scopes = [''a'', ''b''],
      signedAtMs = 1000, token = JStr ''tok'', nonce = JStr ''n1''\<rparr>
     = ''v2|d1|gateway-client|backend|operator|a,b|1000|tok|n1''
   \<and> buildDeviceAuthPayload a
     = (if truthy (nonce a) then ''v2'' else ''v1'') @ ''|'' @ deviceId a @ ''|'' @ clientId a
       @ ''|'' @ clientMode a @ ''|'' @ role a @ ''|'' @ join '','' (scopes a)
       @ ''|'' @ int_str (signedAtMs a) @ ''|'' @ (if truthy (token a) then join_str (token a) else '''')
       @ (if truthy (nonce a) then ''|'' @ join_str (nonce a) else '''')
   \<and> join '','' (x # y # zs) = x @ '','' @ join '','' (y # zs)"
proof -
  have d: "dec 1000 = ''1000''"
    by (rule dec_1000)
  have e1: "buildDeviceAuthPayload \<lparr>deviceId = ''d1'', clientId = ''gateway-client'',
      clientMode = ''backend'', role = ''operator'', scopes = [''a'', ''b''],
      signedAtMs = 1000, token = JStr ''tok'', nonce = Undefined\<rparr>
     = ''v1|d1|gateway-client|backend|operator|a,b|1000|tok''"
    by (simp add: buildDeviceAuthPayload_def js_or_def int_str_def d)
  have e2: "buildDeviceAuthPayload \<lparr>deviceId = ''d1'', clientId = ''gateway-client'',
      clientMode = ''backend'', role = ''operator'', scopes = [''a'', ''b''],
      signedAtMs = 1000, token = JStr ''tok'', nonce = JStr ''n1''\<rparr>
     = ''v2|d1|gateway-client|backend|operator|a,b|1000|tok|n1''"
    by (simp add: buildDeviceAuthPayload_def js_or_def int_str_def d)
  have g: "buildDeviceAuthPayload a
     = (if truthy (nonce a) then ''v2'' else ''v1'') @ ''|'' @ deviceId a @ ''|'' @ clientId a
       @ ''|'' @ clientMode a @ ''|'' @ role a @ ''|'' @ join '','' (scopes a)
       @ ''|'' @ int_str (signedAtMs a) @ ''|'' @ (if truthy (token a) then join_str (token a) else '''')
       @ (if truthy (nonce a) then ''|'' @ join_str (nonce a) else '''')"
    by (simp add: buildDeviceAuthPayload_def join_str_or_empty Let_def)
  show ?thesis
    using e1 e2 g by simp
qed

text \<open>
  C7: when the close event of a socket arrives, every entry pending at that moment has its
  timer cleared and is rejected with the same connection-closed error, in the order of the
  map; the map is empty afterwards; with no entry pending no continuation is invoked.
\<close>

theorem close_rejects_all_pending:
  assumes "k < length (socks s)" and "readyState (socks s ! k) \<noteq> CLOSED"
  shows "pending (step cfg s (SockClose k)) = []
     \<and> take (length (effects s)) (effects (step cfg s (SockClose k))) = effects s
     \<and> filter is_settle (new_effects s (step cfg s (SockClose k)))
         = map (\<lambda>ie. Settle (cont (snd ie)) (Rejected closed_error)) (pending s)
     \<and> (\<forall>ie \<in> set (pending s). timer_of (snd ie) < length (timers s) \<longrightarrow>
           timers (step cfg s (SockClose k)) ! timer_of (snd ie) = Dead)
     \<and> (pending s = [] \<longrightarrow> filter is_settle (new_effects s (step cfg s (SockClose k))) = [])"
proof -
  let ?s0 = "set_ready k CLOSED s"
  let ?hs = "handshakeTimer (socks s ! k)"
  have st: "step cfg s (SockClose k) = onclose ?hs ?s0"
    using assms by simp
  have p0: "pending ?s0 = pending s" and e0: "effects ?s0 = effects s"
    and t0: "timers ?s0 = timers s"
    by (simp_all add: set_ready_def)
  have eff: "new_effects s (onclose ?hs ?s0) =
      map (\<lambda>ie. Settle (cont (snd ie)) (Rejected closed_error)) (pending s)
       @ (if handshakeComplete ?s0 then [Emit ''disconnected'' Undefined] else [])
       @ (if reconnectTimer ?s0 = None then [ReconnectingIn (reconnectDelay ?s0)] else [])"
    by (simp add: new_effects_def onclose_effects p0 e0)
  have settle: "filter is_settle (new_effects s (onclose ?hs ?s0))
      = map (\<lambda>ie. Settle (cont (snd ie)) (Rejected closed_error)) (pending s)"
    unfolding eff by (simp add: filter_settle_map)
  have dead: "timers (onclose ?hs ?s0) ! timer_of (snd ie) = Dead"
    if "ie \<in> set (pending s)" and "timer_of (snd ie) < length (timers s)" for ie
    using that by (simp add: onclose_timers p0 t0 nth_append nth_fold_clear)
  have c1: "pending (onclose ?hs ?s0) = []"
    by (rule onclose_pending)
  have c2: "take (length (effects s)) (effects (onclose ?hs ?s0)) = effects s"
    by (simp add: onclose_effects e0)
  have c5: "pending s = [] \<longrightarrow> filter is_settle (new_effects s (onclose ?hs ?s0)) = []"
    unfolding settle by simp
  from c1 c2 settle dead c5 show ?thesis
    unfolding st by blast
qed

theorem close_rejects_all_pending_witness:
  "pending (step example_config
      (run example_config init (ready_events @ [Call ''sessions.list'' (JObj []) ''u1'']))
      (SockClose 0)) = []
   \<and> filter is_settle (new_effects
        (run example_config init (ready_events @ [Call ''sessions.list'' (JObj []) ''u1'']))
        (step example_config
          (run example_config init (ready_events @ [Call ''sessions.list'' (JObj []) ''u1'']))
          (SockClose 0)))
      = [Settle (PromiseK 0) (Rejected closed_error)]
   \<and> timers (step example_config
        (run example_config init (ready_events @ [Call ''sessions.list'' (JObj []) ''u1'']))
        (SockClose 0)) ! 2 = Dead"
proof -
  let ?s = "run example_config init (ready_events @ [Call ''sessions.list'' (JObj []) ''u1''])"
  have k: "0 < length (socks ?s)" and r: "readyState (socks ?s ! 0) \<noteq> CLOSED"
    and p: "pending ?s = [(''u1'', Entry (PromiseK 0) 2)]"
    and t: "length (timers ?s) = 3"
    by (simp_all add: run_ready_call ready_state_def)
  from close_rejects_all_pending [OF k r, of example_config] show ?thesis
    by (simp add: p t)
qed

text \<open>
  C8: \<^verbatim>\<open>call\<close> arms a timer of 15000 ms that captures the id, the method and the promise.
  When that timer fires, the promise is rejected with the timeout error naming the method
  and 15000ms, the id is no longer in the pending map, the entries under every other id and
  all other timers are as before, and the connection is untouched.
\<close>

theorem call_timeout_rejects_only_that_call:
  "(call method params uuid s0 = Inr (p, s1) \<longrightarrow>
      timers s1 = timers s0 @ [Armed CALL_TIMEOUT_MS (CallTimeout uuid method p)]
      \<and> map_of (pending s1) uuid = Some (Entry (PromiseK p) (length (timers s0))))
   \<and> (t < length (timers s) \<and> timers s ! t = Armed d (CallTimeout i m q) \<longrightarrow>
      new_effects s (step cfg s (TimerFire t)) = [Settle (PromiseK q) (Rejected (timeout_error m))]
      \<and> take (length (effects s)) (effects (step cfg s (TimerFire t))) = effects s
      \<and> pending (step cfg s (TimerFire t)) = AList.delete i (pending s)
      \<and> i \<notin> fst ` set (pending (step cfg s (TimerFire t)))
      \<and> (\<forall>j. j \<noteq> i \<longrightarrow> map_of (pending (step cfg s (TimerFire t))) j = map_of (pending s) j)
      \<and> timers (step cfg s (TimerFire t)) = (timers s)[t := Dead]
      \<and> socks (step cfg s (TimerFire t)) = socks s
      \<and> ws (step cfg s (TimerFire t)) = ws s
      \<and> isConnected (step cfg s (TimerFire t)) = isConnected s)"
proof -
  have a: "timers s1 = timers s0 @ [Armed CALL_TIMEOUT_MS (CallTimeout uuid method p)]
      \<and> map_of (pending s1) uuid = Some (Entry (PromiseK p) (length (timers s0)))"
    if c: "call method params uuid s0 = Inr (p, s1)"
  proof -
    have conn: "isConnected s0"
      using c by (auto simp: call_def split: if_splits)
    from c show ?thesis
      unfolding call_Inr [OF conn] by (auto simp: AList.update_conv')
  qed
  have b: "new_effects s (step cfg s (TimerFire t)) = [Settle (PromiseK q) (Rejected (timeout_error m))]
      \<and> take (length (effects s)) (effects (step cfg s (TimerFire t))) = effects s
      \<and> pending (step cfg s (TimerFire t)) = AList.delete i (pending s)
      \<and> i \<notin> fst ` set (pending (step cfg s (TimerFire t)))
      \<and> (\<forall>j. j \<noteq> i \<longrightarrow> map_of (pending (step cfg s (TimerFire t))) j = map_of (pending s) j)
      \<and> timers (step cfg s (TimerFire t)) = (timers s)[t := Dead]
      \<and> socks (step cfg s (TimerFire t)) = socks s
      \<and> ws (step cfg s (TimerFire t)) = ws s
      \<and> isConnected (step cfg s (TimerFire t)) = isConnected s"
    if h: "t < length (timers s)" "timers s ! t = Armed d (CallTimeout i m q)"
  proof -
    have st: "step cfg s (TimerFire t) =
        perform (Settle (PromiseK q) (Rejected (timeout_error m)))
          (s\<lparr>timers := (timers s)[t := Dead], pending := AList.delete i (pending s)\<rparr>)"
      using h by (simp add: timeout_error_def dec_15000)
    show ?thesis
      unfolding st
      by (simp add: perform_def new_effects_def isConnected_def AList.delete_notin_dom)
  qed
  from a b show ?thesis by blast
qed

theorem call_timeout_rejects_only_that_call_witness:
  "new_effects (run example_config init (ready_events @ [Call ''sessions.list'' (JObj []) ''u1'']))
      (step example_config
        (run example_config init (ready_events @ [Call ''sessions.list'' (JObj []) ''u1'']))
        (TimerFire 2))
     = [Settle (PromiseK 0) (Rejected (timeout_error ''sessions.list''))]
   \<and> pending (step example_config
        (run example_config init (ready_events @ [Call ''sessions.list'' (JObj []) ''u1'']))
        (TimerFire 2)) = []"
proof -
  let ?s = "run example_config init (ready_events @ [Call ''sessions.list'' (JObj []) ''u1''])"
  have t: "timers ?s = [Dead, Dead, Armed CALL_TIMEOUT_MS (CallTimeout ''u1'' ''sessions.list'' 0)]"
    and p: "pending ?s = [(''u1'', Entry (PromiseK 0) 2)]"
    by (simp_all add: run_append run_ready ready_state_def model_defs)
  have h: "2 < length (timers ?s) \<and> timers ?s ! 2 = Armed CALL_TIMEOUT_MS (CallTimeout ''u1'' ''sessions.list'' 0)"
    by (simp add: t)
  from call_timeout_rejects_only_that_call
    [of "''x''" Null "''y''" init 0 init 2 ?s CALL_TIMEOUT_MS "''u1''" "''sessions.list''" 0 example_config]
    h
  show ?thesis
    by (simp add: p)
qed

lemma sendConnectRequest_pending:
  "pending (sendConnectRequest cfg n uuid now s) =
     AList.update uuid (Entry HandshakeK (length (timers s))) (pending s)"
  by (simp add: sendConnectRequest_def setTimeout_def Let_def split: option.splits)

lemma sendConnectRequest_timers:
  "timers (sendConnectRequest cfg n uuid now s) =
     timers s @ [Armed HANDSHAKE_TIMEOUT_MS (ConnectReqTimeout uuid)]"
  by (simp add: sendConnectRequest_def setTimeout_def Let_def split: option.splits)

text \<open>
  C9 (as stated, refuted): a call made while its id is already in the pending map does not
  fail; \<^verbatim>\<open>Map.set\<close> replaces the entry of promise 0 by that of promise 1.
\<close>

theorem register_existing_id_counterexample:
  "map_of (pending (run example_config init
              (ready_events @ [Call ''sessions.list'' (JObj []) ''u1'']))) ''u1''
     = Some (Entry (PromiseK 0) 2)
   \<and> \<not> isl (call ''config.get'' (JObj []) ''u1''
              (run example_config init (ready_events @ [Call ''sessions.list'' (JObj []) ''u1''])))
   \<and> pending (step example_config
        (run example_config init (ready_events @ [Call ''sessions.list'' (JObj []) ''u1'']))
        (Call ''config.get'' (JObj []) ''u1''))
     = [(''u1'', Entry (PromiseK 1) 3)]"
  by (simp add: run_ready_call ready_state_def call_Inr isConnected_def numeral_3_eq_3)

text \<open>
  C9 (amended): inserting a pending entry never fails on account of its id. \<^verbatim>\<open>call\<close>
  on a connected client and \<^verbatim>\<open>_sendConnectRequest\<close> always store the new entry under
  the id, replacing an entry already stored under it; the entries under other ids stay, the
  set of ids gains at most that id, and no timer is cleared.
\<close>

theorem register_replaces_existing_entry:
  "(isConnected s \<longrightarrow>
      call method params uuid s = Inr (nextPromise s, step cfg s (Call method params uuid))
      \<and> map_of (pending (step cfg s (Call method params uuid))) uuid
          = Some (Entry (PromiseK (nextPromise s)) (length (timers s)))
      \<and> (\<forall>j. j \<noteq> uuid \<longrightarrow>
            map_of (pending (step cfg s (Call method params uuid))) j = map_of (pending s) j)
      \<and> fst ` set (pending (step cfg s (Call method params uuid))) = insert uuid (fst ` set (pending s))
      \<and> timers (step cfg s (Call method params uuid))
          = timers s @ [Armed CALL_TIMEOUT_MS (CallTimeout uuid method (nextPromise s))])
   \<and> map_of (pending (sendConnectRequest cfg n uuid now s)) uuid
        = Some (Entry HandshakeK (length (timers s)))
   \<and> (\<forall>j. j \<noteq> uuid \<longrightarrow>
         map_of (pending (sendConnectRequest cfg n uuid now s)) j = map_of (pending s) j)
   \<and> fst ` set (pending (sendConnectRequest cfg n uuid now s)) = insert uuid (fst ` set (pending s))
   \<and> timers (sendConnectRequest cfg n uuid now s)
        = timers s @ [Armed HANDSHAKE_TIMEOUT_MS (ConnectReqTimeout uuid)]"
  by (simp add: call_Inr sendConnectRequest_pending sendConnectRequest_timers
      AList.update_conv' AList.dom_update)

theorem register_replaces_existing_entry_witness:
  "call ''config.get'' (JObj []) ''u1''
      (run example_config init (ready_events @ [Call ''sessions.list'' (JObj []) ''u1'']))
     = Inr (1, step example_config
        (run example_config init (ready_events @ [Call ''sessions.list'' (JObj []) ''u1'']))
        (Call ''config.get'' (JObj []) ''u1''))
   \<and> map_of (pending (step example_config
        (run example_config init (ready_events @ [Call ''sessions.list'' (JObj []) ''u1'']))
        (Call ''config.get'' (JObj []) ''u1''))) ''u1'' = Some (Entry (PromiseK 1) 3)"
proof -
  let ?s = "run example_config init (ready_events @ [Call ''sessions.list'' (JObj []) ''u1''])"
  have c: "isConnected ?s" and n: "nextPromise ?s = 1" and t: "length (timers ?s) = 3"
    by (simp_all add: run_ready_call ready_state_def isConnected_def)
  note th = register_replaces_existing_entry
    [of ?s "''config.get''" "JObj []" "''u1''" example_config Null 0, THEN conjunct1, THEN mp, OF c]
  from th [THEN conjunct1] th [THEN conjunct2, THEN conjunct1] show ?thesis
    unfolding n t by (rule conjI)
qed

subsection \<open>Connecting and disconnecting\<close>

lemma sock_close_fields [simp]:
  "pending (sock_close k s) = pending s" "timers (sock_close k s) = timers s"
  "nextPromise (sock_close k s) = nextPromise s" "effects (sock_close k s) = effects s"
  "ws (sock_close k s) = ws s" "reconnectTimer (sock_close k s) = reconnectTimer s"
  "reconnectDelay (sock_close k s) = reconnectDelay s"
  "handshakeComplete (sock_close k s) = handshakeComplete s"
  "connected (sock_close k s) = connected s"
  "length (socks (sock_close k s)) = length (socks s)"
  by (simp_all add: sock_close_def set_ready_def)

lemma sock_close_ready:
  "j < length (socks s) \<Longrightarrow>
   readyState (socks (sock_close k s) ! j) =
     (if j = k \<and> readyState (socks s ! j) \<in> {CONNECTING, OPEN} then CLOSING
      else readyState (socks s ! j))"
  by (auto simp: sock_close_def set_ready_def nth_list_update)

lemma sock_close_hs [simp]:
  "j < length (socks s) \<Longrightarrow>
   handshakeTimer (socks (sock_close k s) ! j) = handshakeTimer (socks s ! j)"
  by (auto simp: sock_close_def set_ready_def nth_list_update)

lemma run_from_ready:
  "run example_config init (ready_events @ es) = run example_config ready_state es"
  by (simp add: run_append run_ready)

text \<open>
  C6 (as stated, refuted): a second \<^verbatim>\<open>connect()\<close> while connecting closes socket 0 and
  opens socket 1; \<^verbatim>\<open>connect()\<close> on the READY client closes the connected socket.
\<close>

theorem connect_twice_counterexample:
  "ws (run example_config init [Connect]) = Some 0
   \<and> ws (run example_config init [Connect, Connect]) = Some 1
   \<and> map readyState (socks (run example_config init [Connect, Connect])) = [CLOSING, CONNECTING]
   \<and> ws (run example_config init ready_events) = Some 0
   \<and> ws (run example_config init (ready_events @ [Connect])) = Some 1
   \<and> map readyState (socks (run example_config init (ready_events @ [Connect])))
       = [CLOSING, CONNECTING]"
proof -
  have a: "ws (run example_config init [Connect]) = Some 0
      \<and> ws (run example_config init [Connect, Connect]) = Some 1
      \<and> map readyState (socks (run example_config init [Connect, Connect])) = [CLOSING, CONNECTING]"
    by (simp add: init_def example_config_def connect_def doConnect_def sock_close_def
        set_ready_def setTimeout_def Let_def)
  have b: "ws ready_state = Some 0
      \<and> ws (run example_config ready_state [Connect]) = Some 1
      \<and> map readyState (socks (run example_config ready_state [Connect])) = [CLOSING, CONNECTING]"
    by (simp add: ready_state_def example_config_def connect_def doConnect_def sock_close_def
        set_ready_def setTimeout_def Let_def)
  from a b show ?thesis
    by (simp add: run_from_ready run_ready del: run.simps)
qed

text \<open>
  C6 (amended): \<^verbatim>\<open>connect()\<close> always starts a new connection attempt. When the URL is
  accepted it calls \<^verbatim>\<open>close()\<close> on the current socket, if any, opens a new socket that
  becomes the current one and arms a new handshake timer; the connection flags, the pending
  map, the reconnect timer and delay, and the effects are left as they were by the call
  itself. When the constructor throws, no socket is current and a reconnect is scheduled.
\<close>

theorem connect_replaces_socket:
  "(url_ok cfg \<longrightarrow>
      ws (connect cfg s) = Some (length (socks s))
      \<and> length (socks (connect cfg s)) = Suc (length (socks s))
      \<and> readyState (socks (connect cfg s) ! length (socks s)) = CONNECTING
      \<and> timers (connect cfg s) = timers s @ [Armed HANDSHAKE_TIMEOUT_MS HandshakeTimeout]
      \<and> (\<forall>k. ws s = Some k \<and> k < length (socks s) \<longrightarrow>
            readyState (socks (connect cfg s) ! k) \<in> {CLOSING, CLOSED})
      \<and> pending (connect cfg s) = pending s
      \<and> connected (connect cfg s) = connected s
      \<and> handshakeComplete (connect cfg s) = handshakeComplete s
      \<and> reconnectTimer (connect cfg s) = reconnectTimer s
      \<and> reconnectDelay (connect cfg s) = reconnectDelay s
      \<and> effects (connect cfg s) = effects s)
   \<and> (\<not> url_ok cfg \<longrightarrow>
      ws (connect cfg s) = None \<and> reconnectTimer (connect cfg s) \<noteq> None
      \<and> length (socks (connect cfg s)) = length (socks s))"
proof -
  have a: "ws (connect cfg s) = Some (length (socks s))
      \<and> length (socks (connect cfg s)) = Suc (length (socks s))
      \<and> readyState (socks (connect cfg s) ! length (socks s)) = CONNECTING
      \<and> timers (connect cfg s) = timers s @ [Armed HANDSHAKE_TIMEOUT_MS HandshakeTimeout]
      \<and> pending (connect cfg s) = pending s
      \<and> connected (connect cfg s) = connected s
      \<and> handshakeComplete (connect cfg s) = handshakeComplete s
      \<and> reconnectTimer (connect cfg s) = reconnectTimer s
      \<and> reconnectDelay (connect cfg s) = reconnectDelay s
      \<and> effects (connect cfg s) = effects s" if u: "url_ok cfg"
    using u
    by (cases "ws s")
      (simp_all add: connect_def doConnect_def setTimeout_def Let_def nth_append)
  have b: "readyState (socks (connect cfg s) ! k) \<in> {CLOSING, CLOSED}"
    if u: "url_ok cfg" and k: "ws s = Some k" "k < length (socks s)" for k
  proof -
    have "readyState (socks (connect cfg s) ! k) = readyState (socks (sock_close k s) ! k)"
      using u k by (simp add: connect_def doConnect_def setTimeout_def Let_def nth_append)
    also have "\<dots> \<in> {CLOSING, CLOSED}"
      using k by (cases "readyState (socks s ! k)") (simp_all add: sock_close_ready)
    finally show ?thesis .
  qed
  have c: "ws (connect cfg s) = None \<and> reconnectTimer (connect cfg s) \<noteq> None
      \<and> length (socks (connect cfg s)) = length (socks s)" if u: "\<not> url_ok cfg"
    using u
    by (cases "ws s")
      (simp_all add: connect_def doConnect_def scheduleReconnect_def perform_def setTimeout_def
        Let_def)
  from a b c show ?thesis by blast
qed

theorem connect_replaces_socket_witness:
  "ws (connect example_config ready_state) = Some 1
   \<and> readyState (socks (connect example_config ready_state) ! 0) \<in> {CLOSING, CLOSED}
   \<and> pending (connect example_config ready_state) = []
   \<and> handshakeComplete (connect example_config ready_state)"
proof -
  have u: "url_ok example_config"
    by (simp add: example_config_def)
  have k: "ws ready_state = Some 0 \<and> 0 < length (socks ready_state)"
    by (simp add: ready_state_def)
  note th = connect_replaces_socket [of example_config ready_state, THEN conjunct1, THEN mp, OF u]
  from th k show ?thesis
    by (simp add: ready_state_def)
qed

text \<open>
  C2: after \<^verbatim>\<open>disconnect()\<close> on the READY client no reconnect timer is pending, no socket
  is current and socket 0 is closing. Its close event then runs the \<^verbatim>\<open>onclose\<close> handler,
  which schedules reconnect timer 2 (1000 ms); when that fires, \<^verbatim>\<open>_doConnect\<close> opens
  socket 1, without \<^verbatim>\<open>connect()\<close> having been called.
\<close>

theorem disconnect_then_close_event_reconnects:
  "reconnectTimer (run example_config init (ready_events @ [Disconnect])) = None
   \<and> ws (run example_config init (ready_events @ [Disconnect])) = None
   \<and> map readyState (socks (run example_config init (ready_events @ [Disconnect]))) = [CLOSING]
   \<and> \<not> isConnected (run example_config init (ready_events @ [Disconnect]))
   \<and> reconnectTimer (run example_config init (ready_events @ [Disconnect, SockClose 0])) = Some 2
   \<and> timers (run example_config init (ready_events @ [Disconnect, SockClose 0]))
       = [Dead, Dead, Armed RECONNECT_BASE_MS ReconnectFire]
   \<and> ws (run example_config init (ready_events @ [Disconnect, SockClose 0, TimerFire 2])) = Some 1
   \<and> map readyState
        (socks (run example_config init (ready_events @ [Disconnect, SockClose 0, TimerFire 2])))
       = [CLOSED, CONNECTING]"
proof -
  have a: "reconnectTimer (run example_config ready_state [Disconnect]) = None
      \<and> ws (run example_config ready_state [Disconnect]) = None
      \<and> map readyState (socks (run example_config ready_state [Disconnect])) = [CLOSING]
      \<and> \<not> isConnected (run example_config ready_state [Disconnect])"
    by (simp add: ready_state_def disconnect_def sock_close_def set_ready_def isConnected_def
        Let_def)
  have b: "reconnectTimer (run example_config ready_state [Disconnect, SockClose 0]) = Some 2
      \<and> timers (run example_config ready_state [Disconnect, SockClose 0])
          = [Dead, Dead, Armed RECONNECT_BASE_MS ReconnectFire]"
    by (simp add: ready_state_def disconnect_def sock_close_def set_ready_def onclose_def
        scheduleReconnect_def perform_def setTimeout_def clearTimeout_def Let_def numeral_2_eq_2)
  have c: "ws (run example_config ready_state [Disconnect, SockClose 0, TimerFire 2]) = Some 1
      \<and> map readyState (socks (run example_config ready_state [Disconnect, SockClose 0, TimerFire 2]))
          = [CLOSED, CONNECTING]"
    by (simp add: ready_state_def example_config_def disconnect_def sock_close_def set_ready_def
        onclose_def scheduleReconnect_def doConnect_def perform_def setTimeout_def
        clearTimeout_def Let_def numeral_2_eq_2)
  from a b c show ?thesis
    by (simp add: run_from_ready del: run.simps)
qed

subsection \<open>The challenge's nonce\<close>








subsection \<open>Reconnect delays\<close>

lemma backoff_Suc: "backoff (Suc n) = min (backoff n * 2) RECONNECT_MAX_MS"
  by (simp add: backoff_def min_def)

lemma backoff_le: "backoff n \<le> RECONNECT_MAX_MS"
  by (simp add: backoff_def)

lemma backoff_first:
  "[backoff 0, backoff 1, backoff 2, backoff 3, backoff 4, backoff 5, backoff 6]
     = [1000, 2000, 4000, 8000, 16000, 30000, 30000]"
  by (simp add: backoff_def)

lemma failed_attempts_Suc:
  "failed_attempts (Suc n) = failed_attempts n @ [SockClose n, TimerFire (2 * n + 1)]"
  by (simp add: failed_attempts_def)

lemma failed_state_0: "url_ok cfg \<Longrightarrow> run cfg init (failed_attempts 0) = failed_state 0"
  by (simp add: failed_attempts_def failed_state_def init_def connect_def doConnect_def
      setTimeout_def backoff_def Let_def)

lemma update_last: "length xs = n \<Longrightarrow> (xs @ [x])[n := y] = xs @ [y]"
  by auto

lemma replicate_snoc_Dead: "replicate n Dead @ [Dead] = replicate (Suc n) Dead"
  by (simp add: replicate_append_same)

lemma failed_state_step:
  assumes "url_ok cfg"
  shows "run cfg (failed_state n) [SockClose n, TimerFire (2 * n + 1)] = failed_state (Suc n)"
proof -
  have c: "step cfg (failed_state n) (SockClose n) =
      \<lparr>ws = Some n, connected = False, handshakeComplete = False, pending = [],
       reconnectDelay = backoff (Suc n), reconnectTimer = Some (2 * n + 1), connectedAt = None,
       serverInfo = Null,
       socks = map (\<lambda>k. \<lparr>readyState = CLOSED, handshakeTimer = 2 * k\<rparr>) [0..<Suc n],
       timers = replicate (2 * n + 1) Dead @ [Armed (backoff n) ReconnectFire],
       nextPromise = 0, effects = map (\<lambda>k. ReconnectingIn (backoff k)) [0..<Suc n]\<rparr>"
    by (simp add: failed_state_def nth_append onclose_def set_ready_def clearTimeout_def
        scheduleReconnect_def perform_def setTimeout_def backoff_Suc Let_def
        update_last replicate_snoc_Dead)
  have r: "run cfg (failed_state n) [SockClose n, TimerFire (2 * n + 1)]
      = step cfg (step cfg (failed_state n) (SockClose n)) (TimerFire (2 * n + 1))"
    by simp
  show ?thesis
    unfolding r c using assms
    by (simp add: nth_append doConnect_def sock_close_def set_ready_def setTimeout_def
        failed_state_def [of "Suc n"] Let_def update_last replicate_snoc_Dead)
qed

lemma run_failed_attempts: "url_ok cfg \<Longrightarrow> run cfg init (failed_attempts n) = failed_state n"
proof (induction n)
  case 0
  then show ?case by (rule failed_state_0)
next
  case (Suc n)
  then show ?case
    unfolding failed_attempts_Suc run_append by (simp only: failed_state_step)
qed

lemma delays_reconnecting:
  "concat (map (delay_of \<circ> (\<lambda>k. ReconnectingIn (f k))) ks) = map f ks"
  by (induction ks) auto

lemma settle_pending_delay [simp]:
  "reconnectDelay (settle_pending key out s) = reconnectDelay s"
  by (cases key)
    (auto simp: settle_pending_def pending_get_def pending_delete_def perform_def clearTimeout_def
      split: option.splits entry.splits)

lemma close_current_delay [simp]: "reconnectDelay (close_current s) = reconnectDelay s"
  by (simp add: close_current_def split: option.splits)

lemma onResponse_delay: "reconnectDelay (onResponse hs msg now s) = reconnectDelay s"
  by (simp add: onResponse_def perform_def clearTimeout_def Let_def)

text \<open>
  C3 (as stated, refuted): after two attempts that failed before opening, the next delay is
  4000 ms; the open event of socket 2 alone resets it to 1000 ms, while the handshake is not
  complete. Two consecutive attempts that fail after the socket opened are both scheduled
  with 1000 ms.
\<close>

theorem backoff_reset_counterexample:
  "reconnectDelay (run example_config init (failed_attempts 2)) = 4000
   \<and> reconnectDelay (run example_config init (failed_attempts 2 @ [SockOpen 2])) = 1000
   \<and> \<not> handshakeComplete (run example_config init (failed_attempts 2 @ [SockOpen 2]))
   \<and> delays (run example_config init
        [Connect, SockOpen 0, SockClose 0, TimerFire 1, SockOpen 1, SockClose 1]) = [1000, 1000]"
proof -
  have u: "url_ok example_config"
    by (simp add: example_config_def)
  have a: "reconnectDelay (failed_state 2) = 4000"
    by (simp add: failed_state_def backoff_def)
  have b: "reconnectDelay (step example_config (failed_state 2) (SockOpen 2)) = 1000
      \<and> \<not> handshakeComplete (step example_config (failed_state 2) (SockOpen 2))"
    by (simp add: failed_state_def nth_append onopen_def set_ready_def)
  have c: "delays (run example_config init
        [Connect, SockOpen 0, SockClose 0, TimerFire 1, SockOpen 1, SockClose 1]) = [1000, 1000]"
    by (simp add: delays_def init_def example_config_def connect_def doConnect_def onopen_def
        onclose_def scheduleReconnect_def sock_close_def set_ready_def setTimeout_def
        clearTimeout_def perform_def Let_def)
  from a b c show ?thesis
    unfolding run_append run_failed_attempts [OF u] by simp
qed

text \<open>
  C3 (amended): every \<^verbatim>\<open>_scheduleReconnect\<close> that finds no reconnect timer pending
  schedules the current delay and then doubles it up to the cap of 30000 ms. After
  \<^verbatim>\<open>connect()\<close> on a new client, \<open>n\<close> consecutive attempts that fail before their socket
  opens are scheduled with the delays 1000, 2000, 4000, 8000, 16000, 30000, 30000, ...,
  never above 30000. The delay is reset to 1000 ms by the open event of a socket, whether or
  not a handshake completes later; a response frame (the handshake's hello-ok included)
  leaves the delay as it is.
\<close>

theorem backoff_schedule:
  "(url_ok cfg \<longrightarrow>
      delays (run cfg init (failed_attempts n)) = map backoff [0..<n]
      \<and> reconnectDelay (run cfg init (failed_attempts n)) = backoff n)
   \<and> [backoff 0, backoff 1, backoff 2, backoff 3, backoff 4, backoff 5, backoff 6]
       = [1000, 2000, 4000, 8000, 16000, 30000, 30000]
   \<and> backoff n \<le> RECONNECT_MAX_MS
   \<and> (5 \<le> n \<longrightarrow> backoff n = RECONNECT_MAX_MS)
   \<and> (reconnectTimer s = None \<longrightarrow>
        delays (scheduleReconnect s) = delays s @ [reconnectDelay s]
        \<and> reconnectDelay (scheduleReconnect s) = min (reconnectDelay s * 2) RECONNECT_MAX_MS
        \<and> timers (scheduleReconnect s) = timers s @ [Armed (reconnectDelay s) ReconnectFire])
   \<and> (k < length (socks s) \<and> readyState (socks s ! k) = CONNECTING \<longrightarrow>
        reconnectDelay (step cfg s (SockOpen k)) = RECONNECT_BASE_MS
        \<and> handshakeComplete (step cfg s (SockOpen k)) = handshakeComplete s)
   \<and> (field msg ''type'' = JStr ''res'' \<longrightarrow>
        reconnectDelay (step cfg s (SockMessage k (Some msg) uuid now)) = reconnectDelay s)"
proof -
  have a: "delays (run cfg init (failed_attempts n)) = map backoff [0..<n]
      \<and> reconnectDelay (run cfg init (failed_attempts n)) = backoff n" if "url_ok cfg"
    by (simp add: run_failed_attempts [OF that] failed_state_def delays_def delays_reconnecting)
  have b: "backoff n = RECONNECT_MAX_MS" if "5 \<le> n"
  proof -
    have "(2::nat) ^ 5 \<le> 2 ^ n"
      using that by (rule power_increasing) simp
    then show ?thesis
      by (simp add: backoff_def min_def)
  qed
  have c: "delays (scheduleReconnect s) = delays s @ [reconnectDelay s]
        \<and> reconnectDelay (scheduleReconnect s) = min (reconnectDelay s * 2) RECONNECT_MAX_MS
        \<and> timers (scheduleReconnect s) = timers s @ [Armed (reconnectDelay s) ReconnectFire]"
    if "reconnectTimer s = None"
    using that by (simp add: scheduleReconnect_def delays_def perform_def setTimeout_def Let_def)
  have d: "reconnectDelay (step cfg s (SockOpen k)) = RECONNECT_BASE_MS
        \<and> handshakeComplete (step cfg s (SockOpen k)) = handshakeComplete s"
    if "k < length (socks s)" "readyState (socks s ! k) = CONNECTING"
    using that by (simp add: onopen_def set_ready_def)
  have e: "reconnectDelay (step cfg s (SockMessage k (Some msg) uuid now)) = reconnectDelay s"
    if "field msg ''type'' = JStr ''res''"
    using that by (auto simp: onmessage_def onResponse_delay)
  from a b c d e backoff_first backoff_le [of n] show ?thesis
    by blast
qed

theorem backoff_schedule_witness:
  "delays (run example_config init (failed_attempts 7))
     = [1000, 2000, 4000, 8000, 16000, 30000, 30000]
   \<and> reconnectDelay (run example_config init (failed_attempts 7)) = 30000"
proof -
  have u: "url_ok example_config"
    by (simp add: example_config_def)
  have l: "[0..<7] = [0, 1, 2, 3, 4, 5, 6]"
    by (simp add: upt_conv_Cons numeral_eq_Suc del: upt_Suc)
  have n: "(5::nat) \<le> 7"
    by simp
  note th = backoff_schedule [of example_config 7 init 0 Null "''u''" 0]
  from th [THEN conjunct1, THEN mp, OF u]
    th [THEN conjunct2, THEN conjunct1]
    th [THEN conjunct2, THEN conjunct2, THEN conjunct2, THEN conjunct1, THEN mp, OF n]
  show ?thesis
    by (simp add: l)
qed

subsection \<open>The pending map and the timers\<close>

lemma slot_matches_hs [simp]: "hs_or_dead sl \<Longrightarrow> \<not> slot_matches i e sl"
  by (cases sl rule: hs_or_dead.cases) simp_all

lemma slot_matches_reconnect [simp]: "is_reconnect sl \<Longrightarrow> \<not> slot_matches i e sl"
  by (cases sl rule: is_reconnect.cases) simp_all

lemma slot_matches_unique:
  "slot_matches i e sl \<Longrightarrow> slot_matches i' e' sl \<Longrightarrow> i = i'"
  by (cases "(i, e, sl)" rule: slot_matches.cases; cases "(i', e', sl)" rule: slot_matches.cases)
    auto

lemma owner_ok_cases:
  "owner_ok pend rt t sl \<longleftrightarrow>
     (\<forall>d i m p. sl = Armed d (CallTimeout i m p) \<longrightarrow> map_of pend i = Some (Entry (PromiseK p) t))
     \<and> (\<forall>d i. sl = Armed d (ConnectReqTimeout i) \<longrightarrow> map_of pend i = Some (Entry HandshakeK t))
     \<and> (\<forall>d. sl = Armed d ReconnectFire \<longrightarrow> rt = Some t)"
  by (cases "(pend, rt, t, sl)" rule: owner_ok.cases) auto

lemma table_ok_arm_handshake:
  assumes "table_ok pend tms rt np hs"
  shows "table_ok pend (tms @ [Armed d HandshakeTimeout]) rt np (insert (length tms) hs)"
  using assms unfolding table_ok_def
  by (auto simp: nth_append less_Suc_eq)

lemma table_ok_arm_reconnect:
  assumes "table_ok pend tms None np hs"
  shows "table_ok pend (tms @ [Armed d ReconnectFire]) (Some (length tms)) np hs"
  using assms unfolding table_ok_def
  by (auto simp: nth_append less_Suc_eq owner_ok_cases)

lemma table_okI:
  assumes "distinct (map fst pend)"
    and "\<And>i e. (i, e) \<in> set pend \<Longrightarrow> timer_of e < length tms"
    and "\<And>i e. (i, e) \<in> set pend \<Longrightarrow> slot_matches i e (tms ! timer_of e)"
    and "\<And>i e p. (i, e) \<in> set pend \<Longrightarrow> cont e = PromiseK p \<Longrightarrow> p < np"
    and "\<And>t. t < length tms \<Longrightarrow> owner_ok pend rt t (tms ! t)"
    and "\<And>t. rt = Some t \<Longrightarrow> t < length tms \<and> is_reconnect (tms ! t)"
    and "\<And>h. h \<in> hs \<Longrightarrow> h < length tms \<and> hs_or_dead (tms ! h)"
  shows "table_ok pend tms rt np hs"
  unfolding table_ok_def using assms by force

lemma table_ok_distinct: "table_ok pend tms rt np hs \<Longrightarrow> distinct (map fst pend)"
  by (simp add: table_ok_def)

lemma table_ok_entry:
  "table_ok pend tms rt np hs \<Longrightarrow> (i, e) \<in> set pend \<Longrightarrow>
   timer_of e < length tms \<and> slot_matches i e (tms ! timer_of e)"
  by (force simp: table_ok_def)

lemma table_ok_promise:
  "table_ok pend tms rt np hs \<Longrightarrow> (i, e) \<in> set pend \<Longrightarrow> cont e = PromiseK p \<Longrightarrow> p < np"
  by (force simp: table_ok_def)

lemma table_ok_owner:
  "table_ok pend tms rt np hs \<Longrightarrow> t < length tms \<Longrightarrow> owner_ok pend rt t (tms ! t)"
  by (simp add: table_ok_def)

lemma table_ok_rt:
  "table_ok pend tms rt np hs \<Longrightarrow> rt = Some t \<Longrightarrow> t < length tms \<and> is_reconnect (tms ! t)"
  by (simp add: table_ok_def)

lemma table_ok_hs:
  "table_ok pend tms rt np hs \<Longrightarrow> h \<in> hs \<Longrightarrow> h < length tms \<and> hs_or_dead (tms ! h)"
  by (simp add: table_ok_def)

lemma owner_ok_Dead [simp]: "owner_ok pend rt t Dead"
  by simp

text \<open>Disarming a timer, with the entries that remain and the reconnect timer field.\<close>

lemma table_ok_disarm:
  assumes ok: "table_ok pend tms rt np hs"
    and sub: "\<And>i e. (i, e) \<in> set pend' \<Longrightarrow> (i, e) \<in> set pend \<and> timer_of e \<noteq> t"
    and dist: "distinct (map fst pend')"
    and own: "\<And>t'. t' < length tms \<Longrightarrow> t' \<noteq> t \<Longrightarrow> owner_ok pend' rt' t' (tms ! t')"
    and rt: "\<And>t'. rt' = Some t' \<Longrightarrow> rt = Some t' \<and> t' \<noteq> t"
  shows "table_ok pend' (tms[t := Dead]) rt' np hs"
proof (rule table_okI)
  show "distinct (map fst pend')"
    by (rule dist)
next
  fix i e assume "(i, e) \<in> set pend'"
  with sub ok show "timer_of e < length (tms[t := Dead])"
    by (auto dest: table_ok_entry)
next
  fix i e assume ie: "(i, e) \<in> set pend'"
  with sub have "(i, e) \<in> set pend" and "timer_of e \<noteq> t"
    by auto
  with ok show "slot_matches i e (tms[t := Dead] ! timer_of e)"
    by (auto dest: table_ok_entry)
next
  fix i e p assume "(i, e) \<in> set pend'" "cont e = PromiseK p"
  with sub ok show "p < np"
    by (auto dest: table_ok_promise)
next
  fix t' assume "t' < length (tms[t := Dead])"
  then show "owner_ok pend' rt' t' (tms[t := Dead] ! t')"
    using own by (cases "t' = t") auto
next
  fix t' assume "rt' = Some t'"
  with rt have "rt = Some t'" "t' \<noteq> t"
    by auto
  with ok show "t' < length (tms[t := Dead]) \<and> is_reconnect (tms[t := Dead] ! t')"
    by (auto dest: table_ok_rt)
next
  fix h assume "h \<in> hs"
  with ok have "h < length tms \<and> hs_or_dead (tms ! h)"
    by (rule table_ok_hs)
  then show "h < length (tms[t := Dead]) \<and> hs_or_dead (tms[t := Dead] ! h)"
    by (cases "h = t") auto
qed

lemma table_ok_clear_inert:
  assumes ok: "table_ok pend tms rt np hs" and inert: "t < length tms \<longrightarrow> hs_or_dead (tms ! t)"
  shows "table_ok pend (tms[t := Dead]) rt np hs"
proof (rule table_ok_disarm [OF ok])
  fix i e assume ie: "(i, e) \<in> set pend"
  from table_ok_entry [OF ok ie] inert show "(i, e) \<in> set pend \<and> timer_of e \<noteq> t"
    using ie slot_matches_hs by blast
next
  show "distinct (map fst pend)"
    by (rule table_ok_distinct [OF ok])
next
  fix t' assume "t' < length tms"
  then show "owner_ok pend rt t' (tms ! t')"
    by (rule table_ok_owner [OF ok])
next
  fix t' assume r: "rt = Some t'"
  from table_ok_rt [OF ok r] inert show "rt = Some t' \<and> t' \<noteq> t"
    using r by (cases "tms ! t" rule: hs_or_dead.cases) auto
qed

lemma table_ok_clear_handshake:
  "table_ok pend tms rt np hs \<Longrightarrow> h \<in> hs \<Longrightarrow> table_ok pend (tms[h := Dead]) rt np hs"
  by (rule table_ok_clear_inert) (auto dest: table_ok_hs)

lemma table_ok_clear_reconnect:
  assumes ok: "table_ok pend tms rt np hs"
    and t: "rt = Some t \<or> (t < length tms \<and> is_reconnect (tms ! t))"
  shows "table_ok pend (tms[t := Dead]) None np hs"
proof -
  have rc: "t < length tms \<and> is_reconnect (tms ! t)"
    using t table_ok_rt [OF ok] by blast
  have rt: "rt = Some t"
    using table_ok_owner [OF ok, of t] rc
    by (cases "tms ! t" rule: is_reconnect.cases) auto
  show ?thesis
  proof (rule table_ok_disarm [OF ok])
    fix i e assume ie: "(i, e) \<in> set pend"
    from table_ok_entry [OF ok ie] rc show "(i, e) \<in> set pend \<and> timer_of e \<noteq> t"
      using ie slot_matches_reconnect by blast
  next
    show "distinct (map fst pend)"
      by (rule table_ok_distinct [OF ok])
  next
    fix t' assume t': "t' < length tms" "t' \<noteq> t"
    from table_ok_owner [OF ok t'(1)] rt t'(2) show "owner_ok pend None t' (tms ! t')"
      by (auto simp: owner_ok_cases)
  next
    fix t' :: timer assume "(None :: timer option) = Some t'"
    then show "rt = Some t' \<and> t' \<noteq> t"
      by simp
  qed
qed

lemma table_ok_remove:
  assumes ok: "table_ok pend tms rt np hs" and m: "map_of pend i = Some (Entry c t)"
  shows "table_ok (AList.delete i pend) (tms[t := Dead]) rt np hs"
proof -
  have mem: "(i, Entry c t) \<in> set pend"
    using m by (rule map_of_SomeD)
  have sl: "slot_matches i (Entry c t) (tms ! t)" and tl: "t < length tms"
    using table_ok_entry [OF ok mem] by simp_all
  show ?thesis
  proof (rule table_ok_disarm [OF ok])
    fix j e assume je: "(j, e) \<in> set (AList.delete i pend)"
    then have je': "(j, e) \<in> set pend" and ne: "j \<noteq> i"
      by (auto simp: AList.delete_eq)
    have "timer_of e \<noteq> t"
    proof
      assume "timer_of e = t"
      with table_ok_entry [OF ok je'] have "slot_matches j e (tms ! t)"
        by simp
      with sl have "j = i"
        by (rule slot_matches_unique [rotated])
      with ne show False by simp
    qed
    with je' show "(j, e) \<in> set pend \<and> timer_of e \<noteq> t"
      by simp
  next
    show "distinct (map fst (AList.delete i pend))"
      by (rule AList.distinct_delete [OF table_ok_distinct [OF ok]])
  next
    fix t' assume t': "t' < length tms" "t' \<noteq> t"
    have k: "map_of (AList.delete i pend) j = Some (Entry c' t')" if "map_of pend j = Some (Entry c' t')"
      for j c'
    proof -
      have "j \<noteq> i"
        using that m t'(2) by auto
      with that show ?thesis
        by simp
    qed
    from table_ok_owner [OF ok t'(1)] show "owner_ok (AList.delete i pend) rt t' (tms ! t')"
      unfolding owner_ok_cases using k by blast
  next
    fix t' assume r: "rt = Some t'"
    from table_ok_rt [OF ok r] sl show "rt = Some t' \<and> t' \<noteq> t"
      using r slot_matches_reconnect by blast
  qed
qed

lemma update_fresh: "u \<notin> fst ` set pend \<Longrightarrow> AList.update u v pend = pend @ [(u, v)]"
  by (induction pend) auto

lemma map_of_fresh: "u \<notin> fst ` set pend \<Longrightarrow> map_of pend u = None"
  by (simp add: map_of_eq_None_iff)

lemma map_of_snoc_fresh: "u \<notin> fst ` set pend \<Longrightarrow> map_of (pend @ [(u, v)]) u = Some v"
  by (simp add: map_of_fresh map_add_def)

lemma table_ok_register:
  assumes ok: "table_ok pend tms rt np hs" and fresh: "u \<notin> fst ` set pend"
    and sl: "slot_matches u (Entry c (length tms)) sl"
    and np: "np \<le> np'" and c: "\<And>p. c = PromiseK p \<Longrightarrow> p < np'"
  shows "table_ok (AList.update u (Entry c (length tms)) pend) (tms @ [sl]) rt np' hs"
  unfolding update_fresh [OF fresh]
proof (rule table_okI)
  show "distinct (map fst (pend @ [(u, Entry c (length tms))]))"
    using table_ok_distinct [OF ok] fresh by auto
next
  fix i e assume "(i, e) \<in> set (pend @ [(u, Entry c (length tms))])"
  then show "timer_of e < length (tms @ [sl])"
    using table_ok_entry [OF ok] by (auto simp: less_Suc_eq)
next
  fix i e assume "(i, e) \<in> set (pend @ [(u, Entry c (length tms))])"
  then show "slot_matches i e ((tms @ [sl]) ! timer_of e)"
    using table_ok_entry [OF ok] sl by (auto simp: nth_append)
next
  fix i e p assume "(i, e) \<in> set (pend @ [(u, Entry c (length tms))])" "cont e = PromiseK p"
  then show "p < np'"
    using table_ok_promise [OF ok] np c by (auto intro: less_le_trans)
next
  fix t assume t: "t < length (tms @ [sl])"
  show "owner_ok (pend @ [(u, Entry c (length tms))]) rt t ((tms @ [sl]) ! t)"
  proof (cases "t < length tms")
    case True
    have k: "map_of (pend @ [(u, Entry c (length tms))]) i = Some e" if "map_of pend i = Some e"
      for i e
      using that by simp
    from table_ok_owner [OF ok True] have "owner_ok (pend @ [(u, Entry c (length tms))]) rt t (tms ! t)"
      unfolding owner_ok_cases using k by blast
    with True show ?thesis
      by (simp add: nth_append)
  next
    case False
    with t have tl: "t = length tms"
      by simp
    have "owner_ok (pend @ [(u, Entry c (length tms))]) rt (length tms) sl"
      using sl fresh
      by (cases "(u, Entry c (length tms), sl)" rule: slot_matches.cases)
        (auto simp: map_of_snoc_fresh simp del: map_of_append)
    with tl show ?thesis
      by simp
  qed
next
  fix t assume "rt = Some t"
  then show "t < length (tms @ [sl]) \<and> is_reconnect ((tms @ [sl]) ! t)"
    using table_ok_rt [OF ok] by (auto simp: nth_append less_Suc_eq)
next
  fix h assume "h \<in> hs"
  then show "h < length (tms @ [sl]) \<and> hs_or_dead ((tms @ [sl]) ! h)"
    using table_ok_hs [OF ok] by (auto simp: nth_append less_Suc_eq)
qed

lemma table_ok_clear_all:
  assumes ok: "table_ok pend tms rt np hs"
  shows "table_ok [] (fold (\<lambda>ie ts. ts[timer_of (snd ie) := Dead]) pend tms) rt np hs"
proof (rule table_okI)
  let ?tms = "fold (\<lambda>ie ts. ts[timer_of (snd ie) := Dead]) pend tms"
  show "distinct (map fst [])"
    by simp
  fix t assume "t < length ?tms"
  then have t: "t < length tms"
    by simp
  show "owner_ok [] rt t (?tms ! t)"
  proof (cases "t \<in> (\<lambda>ie. timer_of (snd ie)) ` set pend")
    case True
    with t show ?thesis
      by (simp add: nth_fold_clear)
  next
    case False
    have no: "map_of pend i \<noteq> Some (Entry c t)" for i c
    proof
      assume "map_of pend i = Some (Entry c t)"
      then have "(i, Entry c t) \<in> set pend"
        by (rule map_of_SomeD)
      then have "t \<in> (\<lambda>ie. timer_of (snd ie)) ` set pend"
        by force
      with False show False by simp
    qed
    from table_ok_owner [OF ok t] no have "owner_ok [] rt t (tms ! t)"
      unfolding owner_ok_cases by blast
    with t False show ?thesis
      by (simp add: nth_fold_clear)
  qed
next
  let ?tms = "fold (\<lambda>ie ts. ts[timer_of (snd ie) := Dead]) pend tms"
  fix t assume r: "rt = Some t"
  from table_ok_rt [OF ok r] have t: "t < length tms" and rc: "is_reconnect (tms ! t)"
    by simp_all
  have "t \<notin> (\<lambda>ie. timer_of (snd ie)) ` set pend"
  proof
    assume "t \<in> (\<lambda>ie. timer_of (snd ie)) ` set pend"
    then obtain i e where ie: "(i, e) \<in> set pend" and te: "timer_of e = t"
      by auto
    from table_ok_entry [OF ok ie] te rc show False
      using slot_matches_reconnect by blast
  qed
  with t rc show "t < length ?tms \<and> is_reconnect (?tms ! t)"
    by (simp add: nth_fold_clear)
next
  let ?tms = "fold (\<lambda>ie ts. ts[timer_of (snd ie) := Dead]) pend tms"
  fix h assume "h \<in> hs"
  with ok have "h < length tms \<and> hs_or_dead (tms ! h)"
    by (rule table_ok_hs)
  then show "h < length ?tms \<and> hs_or_dead (?tms ! h)"
    by (simp add: nth_fold_clear)
qed simp_all

subsection \<open>Counting the settlements of a promise\<close>

lemma counted_effect:
  assumes "counted pend effs np" and "\<And>p. \<not> is_settle_of p e"
  shows "counted pend (effs @ [e]) np"
  using assms by (simp add: counted_def)

lemma filter_snoc_fresh:
  "length (filter P (xs @ [x])) = length (filter P xs) + (if P x then 1 else 0)"
  by simp

lemma counted_register_promise:
  assumes c: "counted pend effs np" and ok: "table_ok pend tms rt np hs"
    and fresh: "u \<notin> fst ` set pend"
  shows "counted (AList.update u (Entry (PromiseK np) t) pend) effs (Suc np)"
  unfolding update_fresh [OF fresh] counted_def
proof (intro allI conjI impI)
  fix p assume p: "p < Suc np"
  show "length (filter (\<lambda>ie. cont (snd ie) = PromiseK p) (pend @ [(u, Entry (PromiseK np) t)]))
      + length (filter (is_settle_of p) effs) = 1"
  proof (cases "p = np")
    case True
    have "filter (\<lambda>ie. cont (snd ie) = PromiseK np) pend = []"
      using table_ok_promise [OF ok] by (fastforce simp: filter_empty_conv)
    moreover have "filter (is_settle_of np) effs = []"
      using c by (simp add: counted_def)
    ultimately show ?thesis
      using True by simp
  next
    case False
    with p have "p < np" by simp
    with c False show ?thesis
      by (simp add: counted_def)
  qed
next
  fix p assume "Suc np \<le> p"
  with c show "filter (is_settle_of p) effs = []"
    by (simp add: counted_def)
qed

lemma counted_register_handshake:
  assumes c: "counted pend effs np" and fresh: "u \<notin> fst ` set pend"
  shows "counted (AList.update u (Entry HandshakeK t) pend) effs np"
  using c unfolding update_fresh [OF fresh] counted_def by simp

lemma filter_delete_length:
  assumes "distinct (map fst pend)" and "map_of pend i = Some e"
  shows "length (filter P pend) = length (filter P (AList.delete i pend)) + (if P (i, e) then 1 else 0)"
  using assms
proof (induction pend)
  case Nil
  then show ?case by simp
next
  case (Cons x pend)
  show ?case
  proof (cases "fst x = i")
    case True
    with Cons.prems have x: "x = (i, e)"
      by (cases x) auto
    have "i \<notin> fst ` set pend"
      using Cons.prems(1) True by auto
    then have "AList.delete i pend = pend"
      by simp
    with x show ?thesis
      by simp
  next
    case False
    with Cons.prems have "map_of pend i = Some e" "distinct (map fst pend)"
      by (cases x; auto)+
    from Cons.IH [OF this(2,1)] False show ?thesis
      by (cases x) auto
  qed
qed

lemma counted_remove:
  assumes c: "counted pend effs np" and ok: "table_ok pend tms rt np hs"
    and m: "map_of pend i = Some (Entry k t)"
  shows "counted (AList.delete i pend) (effs @ [Settle k out]) np"
  unfolding counted_def
proof (intro allI conjI impI)
  fix p assume p: "p < np"
  let ?P = "\<lambda>ie. cont (snd ie) = PromiseK p"
  have l: "length (filter ?P pend)
      = length (filter ?P (AList.delete i pend)) + (if k = PromiseK p then 1 else 0)"
    using filter_delete_length [OF table_ok_distinct [OF ok] m, of ?P] by simp
  have s: "is_settle_of p (Settle k out) \<longleftrightarrow> k = PromiseK p"
    by (cases k) auto
  from c p have "length (filter ?P pend) + length (filter (is_settle_of p) effs) = 1"
    by (simp add: counted_def)
  with l s show "length (filter ?P (AList.delete i pend))
      + length (filter (is_settle_of p) (effs @ [Settle k out])) = 1"
    by (cases "k = PromiseK p") simp_all
next
  fix p assume p: "np \<le> p"
  have "k \<noteq> PromiseK p"
  proof
    assume "k = PromiseK p"
    with table_ok_promise [OF ok map_of_SomeD [OF m], of p] p show False
      by simp
  qed
  then have "\<not> is_settle_of p (Settle k out)"
    by (cases k) auto
  with c p show "filter (is_settle_of p) (effs @ [Settle k out]) = []"
    by (simp add: counted_def)
qed

lemma counted_remove_handshake:
  assumes c: "counted pend effs np" and ok: "table_ok pend tms rt np hs"
    and m: "map_of pend i = Some (Entry HandshakeK t)"
  shows "counted (AList.delete i pend) effs np"
proof -
  have "length (filter P pend) = length (filter P (AList.delete i pend))"
    if "\<not> P (i, Entry HandshakeK t)" for P
    using filter_delete_length [OF table_ok_distinct [OF ok] m, of P] that by simp
  then have "length (filter (\<lambda>ie. cont (snd ie) = PromiseK p) pend)
      = length (filter (\<lambda>ie. cont (snd ie) = PromiseK p) (AList.delete i pend))" for p
    by simp
  with c show ?thesis
    by (simp add: counted_def)
qed

lemma settle_filter_map:
  "filter (is_settle_of p \<circ> (\<lambda>ie. Settle (cont (snd ie)) out)) pend
     = filter (\<lambda>ie. cont (snd ie) = PromiseK p) pend"
proof (rule filter_cong [OF refl])
  fix x
  show "(is_settle_of p \<circ> (\<lambda>ie. Settle (cont (snd ie)) out)) x = (cont (snd x) = PromiseK p)"
    by (cases "cont (snd x)") auto
qed

lemma counted_clear_all:
  assumes c: "counted pend effs np" and ok: "table_ok pend tms rt np hs"
  shows "counted [] (effs @ map (\<lambda>ie. Settle (cont (snd ie)) out) pend) np"
  unfolding counted_def
proof (intro allI conjI impI)
  fix p assume "p < np"
  with c show "length (filter (\<lambda>ie. cont (snd ie) = PromiseK p) [])
      + length (filter (is_settle_of p) (effs @ map (\<lambda>ie. Settle (cont (snd ie)) out) pend)) = 1"
    by (simp add: counted_def filter_map settle_filter_map add.commute)
next
  fix p assume p: "np \<le> p"
  have "filter (\<lambda>ie. cont (snd ie) = PromiseK p) pend = []"
    using table_ok_promise [OF ok, of _ _ p] p by (fastforce simp: filter_empty_conv)
  then have "filter (is_settle_of p) (map (\<lambda>ie. Settle (cont (snd ie)) out) pend) = []"
    by (simp add: filter_map settle_filter_map)
  with c p show "filter (is_settle_of p) (effs @ map (\<lambda>ie. Settle (cont (snd ie)) out) pend) = []"
    by (simp add: counted_def)
qed

subsection \<open>The invariant along a run\<close>

lemma consistent_init: "consistent init"
  by (simp add: consistent_def init_def table_ok_def counted_def)

lemma consistent_perform: "consistent s \<Longrightarrow> (\<And>p. \<not> is_settle_of p e) \<Longrightarrow> consistent (perform e s)"
  by (simp add: consistent_def perform_def counted_effect)

lemma hs_set_ready [simp]:
  "handshakeTimer ` set (socks (set_ready k r s)) = handshakeTimer ` set (socks s)"
proof -
  have "map handshakeTimer (socks (set_ready k r s)) = map handshakeTimer (socks s)"
  proof (rule nth_equalityI)
    show "length (map handshakeTimer (socks (set_ready k r s))) = length (map handshakeTimer (socks s))"
      by (simp add: set_ready_def)
    fix i assume "i < length (map handshakeTimer (socks (set_ready k r s)))"
    then have i: "i < length (socks s)"
      by (simp add: set_ready_def)
    then show "map handshakeTimer (socks (set_ready k r s)) ! i = map handshakeTimer (socks s) ! i"
      by (cases "i = k") (simp_all add: set_ready_def)
  qed
  then have "set (map handshakeTimer (socks (set_ready k r s))) = set (map handshakeTimer (socks s))"
    by simp
  then show ?thesis
    by simp
qed

lemma set_ready_fields [simp]:
  "pending (set_ready k r s) = pending s" "timers (set_ready k r s) = timers s"
  "nextPromise (set_ready k r s) = nextPromise s" "effects (set_ready k r s) = effects s"
  "ws (set_ready k r s) = ws s" "reconnectTimer (set_ready k r s) = reconnectTimer s"
  "reconnectDelay (set_ready k r s) = reconnectDelay s"
  "handshakeComplete (set_ready k r s) = handshakeComplete s"
  "connected (set_ready k r s) = connected s"
  "length (socks (set_ready k r s)) = length (socks s)"
  by (simp_all add: set_ready_def)

lemma consistent_set_ready [simp]: "consistent (set_ready k r s) = consistent s"
  by (simp add: consistent_def)

lemma hs_sock_close [simp]:
  "handshakeTimer ` set (socks (sock_close k s)) = handshakeTimer ` set (socks s)"
  by (simp add: sock_close_def)

lemma consistent_sock_close [simp]: "consistent (sock_close k s) = consistent s"
  by (simp add: consistent_def)

lemma consistent_close_current [simp]: "consistent (close_current s) = consistent s"
  by (simp add: close_current_def split: option.splits)

lemma consistent_send [simp]: "consistent (send obj s) = consistent s"
proof (cases "send obj s = s")
  case True
  then show ?thesis by simp
next
  case False
  then obtain k where "send obj s = perform (Send k obj) s"
    by (auto simp: send_def split: option.splits if_splits)
  then show ?thesis
    by (auto simp: consistent_def perform_def counted_def)
qed

lemma consistent_scheduleReconnect: "consistent s \<Longrightarrow> consistent (scheduleReconnect s)"
  by (auto simp: consistent_def scheduleReconnect_def perform_def setTimeout_def Let_def
      intro: table_ok_arm_reconnect counted_effect)

lemma consistent_drop_ws [simp]: "consistent (s\<lparr>ws := w\<rparr>) = consistent s"
  by (simp add: consistent_def)

lemma consistent_doConnect: "consistent s \<Longrightarrow> consistent (doConnect cfg s)"
proof -
  assume i: "consistent s"
  let ?s1 = "case ws s of Some k \<Rightarrow> (sock_close k s)\<lparr>ws := None\<rparr> | None \<Rightarrow> s"
  have i1: "consistent ?s1"
    using i by (simp split: option.splits)
  show ?thesis
  proof (cases "url_ok cfg")
    case False
    then have "doConnect cfg s = scheduleReconnect ?s1"
      by (simp add: doConnect_def)
    with i1 show ?thesis
      by (simp add: consistent_scheduleReconnect)
  next
    case True
    then have t: "timers (doConnect cfg s) = timers ?s1 @ [Armed HANDSHAKE_TIMEOUT_MS HandshakeTimeout]"
      and h: "handshakeTimer ` set (socks (doConnect cfg s))
          = insert (length (timers ?s1)) (handshakeTimer ` set (socks ?s1))"
      and o: "pending (doConnect cfg s) = pending ?s1" "reconnectTimer (doConnect cfg s) = reconnectTimer ?s1"
        "nextPromise (doConnect cfg s) = nextPromise ?s1" "effects (doConnect cfg s) = effects ?s1"
      by (simp_all add: doConnect_def setTimeout_def Let_def)
    from i1 show ?thesis
      unfolding consistent_def t h o by (simp add: table_ok_arm_handshake)
  qed
qed

lemma consistent_call:
  assumes i: "consistent s" and fresh: "uuid \<notin> fst ` set (pending s)" and c: "isConnected s"
  shows "consistent (snd (projr (call method params uuid s)))"
proof -
  have tab: "table_ok (pending s) (timers s) (reconnectTimer s) (nextPromise s)
      (handshakeTimer ` set (socks s))"
    using i by (simp add: consistent_def)
  have t: "table_ok (AList.update uuid (Entry (PromiseK (nextPromise s)) (length (timers s))) (pending s))
      (timers s @ [Armed CALL_TIMEOUT_MS (CallTimeout uuid method (nextPromise s))])
      (reconnectTimer s) (Suc (nextPromise s)) (handshakeTimer ` set (socks s))"
    using table_ok_register [OF tab fresh, of "PromiseK (nextPromise s)"
        "Armed CALL_TIMEOUT_MS (CallTimeout uuid method (nextPromise s))" "Suc (nextPromise s)"]
    by simp
  have k: "counted (AList.update uuid (Entry (PromiseK (nextPromise s)) (length (timers s))) (pending s))
      (effects s) (Suc (nextPromise s))"
    using counted_register_promise [OF _ tab fresh] i by (simp add: consistent_def)
  have "consistent (s\<lparr>nextPromise := Suc (nextPromise s),
      timers := timers s @ [Armed CALL_TIMEOUT_MS (CallTimeout uuid method (nextPromise s))],
      pending := AList.update uuid (Entry (PromiseK (nextPromise s)) (length (timers s)))
                   (pending s)\<rparr>)"
    using t k by (simp add: consistent_def)
  then show ?thesis
    unfolding call_Inr [OF c] by simp
qed

lemma consistent_sendConnectRequest:
  assumes i: "consistent s" and fresh: "uuid \<notin> fst ` set (pending s)"
  shows "consistent (sendConnectRequest cfg n uuid now s)"
proof -
  have tab: "table_ok (pending s) (timers s) (reconnectTimer s) (nextPromise s)
      (handshakeTimer ` set (socks s))"
    using i by (simp add: consistent_def)
  let ?s2 = "s\<lparr>timers := timers s @ [Armed HANDSHAKE_TIMEOUT_MS (ConnectReqTimeout uuid)],
      pending := AList.update uuid (Entry HandshakeK (length (timers s))) (pending s)\<rparr>"
  have t: "table_ok (AList.update uuid (Entry HandshakeK (length (timers s))) (pending s))
      (timers s @ [Armed HANDSHAKE_TIMEOUT_MS (ConnectReqTimeout uuid)])
      (reconnectTimer s) (nextPromise s) (handshakeTimer ` set (socks s))"
    using table_ok_register [OF tab fresh, of HandshakeK
        "Armed HANDSHAKE_TIMEOUT_MS (ConnectReqTimeout uuid)" "nextPromise s"]
    by simp
  have k: "counted (AList.update uuid (Entry HandshakeK (length (timers s))) (pending s))
      (effects s) (nextPromise s)"
    using counted_register_handshake [OF _ fresh] i by (simp add: consistent_def)
  have i2: "consistent ?s2"
    using t k by (simp add: consistent_def)
  show ?thesis
  proof (cases "connectParams cfg n now")
    case None
    then have "sendConnectRequest cfg n uuid now s = ?s2"
      by (simp add: sendConnectRequest_def setTimeout_def Let_def)
    with i2 show ?thesis
      by simp
  next
    case (Some params)
    then have "sendConnectRequest cfg n uuid now s = send (connect_frame uuid params) ?s2"
      by (simp add: sendConnectRequest_def setTimeout_def Let_def)
    with i2 show ?thesis
      by simp
  qed
qed

lemma consistent_remove:
  assumes i: "consistent s" and m: "map_of (pending s) j = Some (Entry c t)"
  shows "consistent (s\<lparr>timers := (timers s)[t := Dead], pending := AList.delete j (pending s),
                effects := effects s @ [Settle c out]\<rparr>)"
  using i table_ok_remove [OF _ m] counted_remove [OF _ _ m]
  by (fastforce simp: consistent_def)

lemma consistent_settle_pending: "consistent s \<Longrightarrow> consistent (settle_pending key out s)"
proof -
  assume i: "consistent s"
  show ?thesis
  proof (cases "pending_get key s")
    case None
    then show ?thesis
      using i by (simp add: settle_pending_def)
  next
    case (Some e)
    then obtain j where key: "key = JStr j" and m: "map_of (pending s) j = Some e"
      by (cases key) (auto simp: pending_get_def)
    obtain c t where e: "e = Entry c t"
      by (cases e)
    have "settle_pending key out s =
        s\<lparr>timers := (timers s)[t := Dead], pending := AList.delete j (pending s),
          effects := effects s @ [Settle c out]\<rparr>"
      by (simp add: settle_pending_def pending_get_def pending_delete_def perform_def
          clearTimeout_def key m e)
    with consistent_remove [OF i m [unfolded e]] show ?thesis
      by simp
  qed
qed

lemma consistent_clear_handshake:
  assumes i: "consistent s" and h: "hs \<in> handshakeTimer ` set (socks s)"
  shows "consistent (clearTimeout hs s)"
  using i table_ok_clear_handshake [OF _ h] by (fastforce simp: consistent_def clearTimeout_def)

lemma consistent_flags [simp]:
  "consistent (s\<lparr>connected := a\<rparr>) = consistent s"
  "consistent (s\<lparr>handshakeComplete := b\<rparr>) = consistent s"
  "consistent (s\<lparr>connectedAt := c\<rparr>) = consistent s"
  "consistent (s\<lparr>serverInfo := d\<rparr>) = consistent s"
  "consistent (s\<lparr>reconnectDelay := e\<rparr>) = consistent s"
  by (simp_all add: consistent_def)

lemma clearTimeout_socks [simp]: "socks (clearTimeout t s) = socks s"
  by (simp add: clearTimeout_def)

lemma consistent_onResponse:
  assumes i: "consistent s" and h: "hs \<in> handshakeTimer ` set (socks s)"
  shows "consistent (onResponse hs msg now s)"
proof -
  have c: "consistent (clearTimeout hs s)"
    using i h by (rule consistent_clear_handshake)
  have e: "consistent (perform (Emit ''connected'' v) s')" if "consistent s'" for s' v
    using that by (rule consistent_perform) simp
  show ?thesis
    unfolding onResponse_def Let_def
    using i c by (simp add: consistent_settle_pending e)
qed

lemma consistent_onmessage:
  assumes i: "consistent s" and h: "hs \<in> handshakeTimer ` set (socks s)"
    and fresh: "uuid \<notin> fst ` set (pending s)"
  shows "consistent (onmessage cfg hs data uuid now s)"
proof (cases data)
  case None
  with i show ?thesis
    by (simp add: onmessage_def)
next
  case (Some msg)
  have e: "consistent (perform (Emit ''event'' msg) s)"
    using i by (rule consistent_perform) simp
  show ?thesis
    unfolding onmessage_def Some
    using i e consistent_onResponse [OF i h] consistent_sendConnectRequest [OF i fresh]
    by simp
qed

lemma consistent_onclose:
  assumes i: "consistent s" and h: "hs \<in> handshakeTimer ` set (socks s)"
  shows "consistent (onclose hs s)"
proof -
  let ?s1 = "clearTimeout hs s"
  have c: "consistent ?s1"
    using i h by (rule consistent_clear_handshake)
  let ?s4 = "?s1\<lparr>connected := False, handshakeComplete := False, connectedAt := None,
      serverInfo := Null,
      timers := fold (\<lambda>ie ts. ts[timer_of (snd ie) := Dead]) (pending ?s1) (timers ?s1),
      effects := effects ?s1 @ map (\<lambda>ie. Settle (cont (snd ie)) (Rejected closed_error)) (pending ?s1),
      pending := []\<rparr>"
  have c4: "consistent ?s4"
    using c table_ok_clear_all [of "pending ?s1" "timers ?s1" "reconnectTimer ?s1" "nextPromise ?s1"
        "handshakeTimer ` set (socks ?s1)"]
      counted_clear_all [of "pending ?s1" "effects ?s1" "nextPromise ?s1" "timers ?s1"
        "reconnectTimer ?s1" "handshakeTimer ` set (socks ?s1)" "Rejected closed_error"]
    by (simp add: consistent_def)
  have c5: "consistent (perform (Emit ''disconnected'' Undefined) ?s4)"
    using c4 by (rule consistent_perform) simp
  have "onclose hs s = scheduleReconnect
      (if handshakeComplete s then perform (Emit ''disconnected'' Undefined) ?s4 else ?s4)"
    by (simp add: onclose_def fold_reject_closed Let_def clearTimeout_def perform_def)
  with c4 c5 show ?thesis
    by (simp add: consistent_scheduleReconnect)
qed

lemma consistent_disconnect: "consistent s \<Longrightarrow> consistent (disconnect s)"
proof -
  assume i: "consistent s"
  let ?s1 = "case reconnectTimer s of
      Some t \<Rightarrow> (clearTimeout t s)\<lparr>reconnectTimer := None\<rparr> | None \<Rightarrow> s"
  have c1: "consistent ?s1"
  proof (cases "reconnectTimer s")
    case None
    with i show ?thesis by simp
  next
    case (Some t)
    have "table_ok (pending s) ((timers s)[t := Dead]) None (nextPromise s)
        (handshakeTimer ` set (socks s))"
      using i Some by (intro table_ok_clear_reconnect [where rt = "reconnectTimer s"])
        (simp_all add: consistent_def)
    with i Some show ?thesis
      by (simp add: consistent_def clearTimeout_def)
  qed
  have "disconnect s =
      (case ws ?s1 of Some k \<Rightarrow> (sock_close k ?s1)\<lparr>ws := None\<rparr> | None \<Rightarrow> ?s1)
        \<lparr>connected := False, handshakeComplete := False\<rparr>"
    by (simp add: disconnect_def Let_def)
  with c1 show ?thesis
    by (simp split: option.splits)
qed

lemma consistent_fire:
  assumes i: "consistent s" and t: "t < length (timers s)" and a: "timers s ! t = Armed d cb"
  shows "consistent (run_timer cfg cb (s\<lparr>timers := (timers s)[t := Dead]\<rparr>))"
proof -
  have tab: "table_ok (pending s) (timers s) (reconnectTimer s) (nextPromise s)
      (handshakeTimer ` set (socks s))"
    and cnt: "counted (pending s) (effects s) (nextPromise s)"
    using i by (simp_all add: consistent_def)
  have own: "owner_ok (pending s) (reconnectTimer s) t (Armed d cb)"
    using table_ok_owner [OF tab t] a by simp
  show ?thesis
  proof (cases cb)
    case (CallTimeout j m p)
    with own have m: "map_of (pending s) j = Some (Entry (PromiseK p) t)"
      by simp
    from consistent_remove [OF i m] show ?thesis
      by (simp add: CallTimeout perform_def)
  next
    case (ConnectReqTimeout j)
    with own have m: "map_of (pending s) j = Some (Entry HandshakeK t)"
      by simp
    have "consistent (s\<lparr>timers := (timers s)[t := Dead], pending := AList.delete j (pending s)\<rparr>)"
      using table_ok_remove [OF tab m] counted_remove_handshake [OF cnt tab m]
      by (simp add: consistent_def)
    then show ?thesis
      by (simp add: ConnectReqTimeout)
  next
    case HandshakeTimeout
    have "table_ok (pending s) ((timers s)[t := Dead]) (reconnectTimer s) (nextPromise s)
        (handshakeTimer ` set (socks s))"
      using tab by (rule table_ok_clear_inert) (simp add: a HandshakeTimeout)
    with cnt have "consistent (s\<lparr>timers := (timers s)[t := Dead]\<rparr>)"
      by (simp add: consistent_def)
    then show ?thesis
      by (simp add: HandshakeTimeout)
  next
    case ReconnectFire
    have "table_ok (pending s) ((timers s)[t := Dead]) None (nextPromise s)
        (handshakeTimer ` set (socks s))"
      using tab by (rule table_ok_clear_reconnect) (simp add: a t ReconnectFire)
    with cnt have "consistent (s\<lparr>timers := (timers s)[t := Dead], reconnectTimer := None\<rparr>)"
      by (simp add: consistent_def)
    then show ?thesis
      by (simp add: ReconnectFire consistent_doConnect)
  qed
qed

lemma hs_member: "k < length (socks s) \<Longrightarrow> handshakeTimer (socks s ! k) \<in> handshakeTimer ` set (socks s)"
  by simp

lemma consistent_step:
  assumes i: "consistent s" and fresh: "uuid_fresh s e"
  shows "consistent (step cfg s e)"
proof (cases e)
  case Connect
  with i show ?thesis
    by (simp add: connect_def consistent_doConnect)
next
  case (Call meth params uuid)
  show ?thesis
  proof (cases "isConnected s")
    case True
    from consistent_call [OF i _ True, of uuid meth params] fresh Call show ?thesis
      by (simp add: call_Inr [OF True])
  next
    case False
    with i Call show ?thesis
      by (simp add: call_def)
  qed
next
  case Disconnect
  with i show ?thesis
    by (simp add: consistent_disconnect)
next
  case (SockOpen k)
  with i show ?thesis
    by (simp add: onopen_def)
next
  case (SockMessage k data uuid now)
  with i fresh show ?thesis
    by (simp add: consistent_onmessage hs_member)
next
  case (SockError k)
  with i show ?thesis
    by simp
next
  case (SockClose k)
  show ?thesis
  proof (cases "k < length (socks s) \<and> readyState (socks s ! k) \<noteq> CLOSED")
    case True
    have "consistent (onclose (handshakeTimer (socks s ! k)) (set_ready k CLOSED s))"
      by (rule consistent_onclose) (use i True in \<open>simp_all add: hs_member\<close>)
    with True SockClose show ?thesis
      by simp
  next
    case False
    with i SockClose show ?thesis
      by auto
  qed
next
  case (TimerFire t)
  show ?thesis
  proof (cases "t < length (timers s)")
    case True
    show ?thesis
    proof (cases "timers s ! t")
      case (Armed d cb)
      from consistent_fire [OF i True Armed] True Armed TimerFire show ?thesis
        by simp
    next
      case Dead
      with i True TimerFire show ?thesis
        by simp
    qed
  next
    case False
    with i TimerFire show ?thesis
      by simp
  qed
qed

lemma consistent_run:
  "consistent s \<Longrightarrow> fresh_run cfg s es \<Longrightarrow> consistent (run cfg s es)"
  by (induction es arbitrary: s) (auto intro: consistent_step)

subsection \<open>What a step adds\<close>

lemma extends_refl [simp]: "extends p A s s"
  by (simp add: extends_def)

lemma extends_trans:
  assumes a: "extends p A s s'" and b: "extends p A s' s''"
  shows "extends p A s s''"
proof -
  from a obtain es where es: "effects s' = effects s @ es" "set es \<subseteq> A"
    unfolding extends_def by blast
  from b obtain es' where es': "effects s'' = effects s' @ es'" "set es' \<subseteq> A"
    unfolding extends_def by blast
  have e: "effects s'' = effects s @ (es @ es')" "set (es @ es') \<subseteq> A"
    using es es' by simp_all
  have n: "nextPromise s \<le> nextPromise s''"
    using a b unfolding extends_def by simp
  have t: "\<forall>x \<in> set (timers s''). x \<in> set (timers s) \<or> \<not> is_call_for p x"
    using a b unfolding extends_def by blast
  from n t e show ?thesis
    unfolding extends_def by blast
qed

lemma extends_mono: "extends p A s s' \<Longrightarrow> A \<subseteq> B \<Longrightarrow> extends p B s s'"
  unfolding extends_def by blast

lemma extendsI:
  assumes "nextPromise s \<le> nextPromise s'"
    and "set (timers s') \<subseteq> set (timers s) \<union> {x. \<not> is_call_for p x}"
    and "effects s' = effects s @ es" and "set es \<subseteq> A"
  shows "extends p A s s'"
  using assms unfolding extends_def by blast

lemma extends_perform: "e \<in> A \<Longrightarrow> extends p A s (perform e s)"
  by (rule extendsI [where es = "[e]"]) (simp_all add: perform_def)

lemma extends_clearTimeout: "extends p A s (clearTimeout t s)"
proof (rule extendsI [where es = "[]"])
  show "set (timers (clearTimeout t s)) \<subseteq> set (timers s) \<union> {x. \<not> is_call_for p x}"
    using set_update_subset_insert [of "timers s" t Dead] by (auto simp: clearTimeout_def)
qed (simp_all add: clearTimeout_def)

lemma extends_quiet:
  assumes "nextPromise s' = nextPromise s" "timers s' = timers s" "effects s' = effects s"
  shows "extends p A s s'"
  using assms by (simp add: extends_def)

lemma extends_sock_close: "extends p A s (sock_close k s)"
  by (rule extends_quiet) simp_all

lemma extends_close_current: "extends p A s (close_current s)"
  by (simp add: close_current_def extends_sock_close split: option.splits)

lemma extends_send: "Send k obj \<in> A \<Longrightarrow> \<forall>j. Send j obj \<in> A \<Longrightarrow> extends p A s (send obj s)"
  by (simp add: send_def extends_perform split: option.splits)

lemma extends_send_any: "(\<And>k. Send k obj \<in> A) \<Longrightarrow> extends p A s (send obj s)"
  by (simp add: send_def extends_perform split: option.splits)

lemma extends_scheduleReconnect:
  "(\<And>d. ReconnectingIn d \<in> A) \<Longrightarrow> extends p A s (scheduleReconnect s)"
proof (cases "reconnectTimer s")
  case None
  assume a: "\<And>d. ReconnectingIn d \<in> A"
  show ?thesis
    by (rule extendsI [where es = "[ReconnectingIn (reconnectDelay s)]"])
      (auto simp: scheduleReconnect_def perform_def setTimeout_def Let_def None a)
next
  case (Some t)
  then show ?thesis
    by (simp add: scheduleReconnect_def)
qed

lemma extends_doConnect:
  assumes a: "\<And>d. ReconnectingIn d \<in> A"
  shows "extends p A s (doConnect cfg s)"
proof -
  let ?s1 = "case ws s of Some k \<Rightarrow> (sock_close k s)\<lparr>ws := None\<rparr> | None \<Rightarrow> s"
  have e1: "extends p A s ?s1"
    by (rule extends_quiet) (simp_all split: option.splits)
  show ?thesis
  proof (cases "url_ok cfg")
    case False
    then have "doConnect cfg s = scheduleReconnect ?s1"
      by (simp add: doConnect_def)
    with e1 extends_scheduleReconnect [of A p ?s1] a show ?thesis
      by (auto intro: extends_trans)
  next
    case True
    have "extends p A ?s1 (doConnect cfg s)"
      by (rule extendsI [where es = "[]"])
        (auto simp: doConnect_def setTimeout_def Let_def True)
    with e1 show ?thesis
      by (rule extends_trans)
  qed
qed

lemma extends_sendConnectRequest:
  assumes a: "\<And>k obj. Send k obj \<in> A"
  shows "extends p A s (sendConnectRequest cfg n uuid now s)"
proof -
  let ?s2 = "s\<lparr>timers := timers s @ [Armed HANDSHAKE_TIMEOUT_MS (ConnectReqTimeout uuid)],
      pending := AList.update uuid (Entry HandshakeK (length (timers s))) (pending s)\<rparr>"
  have e2: "extends p A s ?s2"
    by (rule extendsI [where es = "[]"]) auto
  show ?thesis
  proof (cases "connectParams cfg n now")
    case None
    then have "sendConnectRequest cfg n uuid now s = ?s2"
      by (simp add: sendConnectRequest_def setTimeout_def Let_def)
    with e2 show ?thesis
      by simp
  next
    case (Some params)
    then have "sendConnectRequest cfg n uuid now s = send (connect_frame uuid params) ?s2"
      by (simp add: sendConnectRequest_def setTimeout_def Let_def)
    with e2 extends_send_any [of "connect_frame uuid params" A p ?s2] a show ?thesis
      by (auto intro: extends_trans)
  qed
qed

lemma extends_call:
  assumes a: "\<And>k obj. Send k obj \<in> A" and c: "isConnected s" and p: "p \<noteq> nextPromise s"
  shows "extends p A s (snd (projr (call method params uuid s)))"
proof -
  let ?s3 = "s\<lparr>nextPromise := Suc (nextPromise s),
      timers := timers s @ [Armed CALL_TIMEOUT_MS (CallTimeout uuid method (nextPromise s))],
      pending := AList.update uuid (Entry (PromiseK (nextPromise s)) (length (timers s)))
                   (pending s)\<rparr>"
  have e3: "extends p A s ?s3"
    by (rule extendsI [where es = "[]"]) (use p in auto)
  from e3 extends_send_any [of _ A p ?s3] a show ?thesis
    unfolding call_Inr [OF c] by (auto intro: extends_trans)
qed

lemma extends_disconnect: "extends p A s (disconnect s)"
proof -
  let ?s1 = "case reconnectTimer s of
      Some t \<Rightarrow> (clearTimeout t s)\<lparr>reconnectTimer := None\<rparr> | None \<Rightarrow> s"
  have e1: "extends p A s ?s1"
  proof (cases "reconnectTimer s")
    case None
    then show ?thesis by simp
  next
    case (Some t)
    have "extends p A (clearTimeout t s) ((clearTimeout t s)\<lparr>reconnectTimer := None\<rparr>)"
      by (rule extends_quiet) simp_all
    with extends_clearTimeout [of p A s t] Some show ?thesis
      by (auto intro: extends_trans)
  qed
  have "extends p A ?s1 (disconnect s)"
    by (rule extends_quiet) (simp_all add: disconnect_def Let_def split: option.splits)
  with e1 show ?thesis
    by (rule extends_trans)
qed

lemma set_fold_clear:
  "set (fold (\<lambda>ie ts. ts[timer_of (snd ie) := Dead]) xs ts) \<subseteq> insert Dead (set ts)"
proof (induction xs arbitrary: ts)
  case Nil
  show ?case by auto
next
  case (Cons x xs)
  have "set (fold (\<lambda>ie ts. ts[timer_of (snd ie) := Dead]) xs (ts[timer_of (snd x) := Dead]))
      \<subseteq> insert Dead (set (ts[timer_of (snd x) := Dead]))"
    by (rule Cons.IH)
  also have "\<dots> \<subseteq> insert Dead (set ts)"
    using set_update_subset_insert [of ts "timer_of (snd x)" Dead] by auto
  finally show ?case
    by simp
qed

lemma extends_onclose:
  assumes a: "\<And>e. \<not> is_resolve e \<Longrightarrow> e \<in> A"
  shows "extends p A s (onclose hs s)"
proof (rule extendsI)
  show "nextPromise s \<le> nextPromise (onclose hs s)"
    by (simp add: onclose_def fold_reject_closed scheduleReconnect_def perform_def setTimeout_def
        clearTimeout_def Let_def)
  show "effects (onclose hs s) = effects s @
      (map (\<lambda>ie. Settle (cont (snd ie)) (Rejected closed_error)) (pending s)
       @ (if handshakeComplete s then [Emit ''disconnected'' Undefined] else [])
       @ (if reconnectTimer s = None then [ReconnectingIn (reconnectDelay s)] else []))"
    by (simp add: onclose_effects)
  show "set (map (\<lambda>ie. Settle (cont (snd ie)) (Rejected closed_error)) (pending s)
       @ (if handshakeComplete s then [Emit ''disconnected'' Undefined] else [])
       @ (if reconnectTimer s = None then [ReconnectingIn (reconnectDelay s)] else [])) \<subseteq> A"
    using a by auto
  have "set (timers (onclose hs s)) \<subseteq> insert Dead (set ((timers s)[hs := Dead]))
      \<union> {Armed (reconnectDelay s) ReconnectFire}"
    using set_fold_clear [of "pending s" "(timers s)[hs := Dead]"]
    by (auto simp: onclose_timers)
  also have "\<dots> \<subseteq> set (timers s) \<union> {x. \<not> is_call_for p x}"
    using set_update_subset_insert [of "timers s" hs Dead] by auto
  finally show "set (timers (onclose hs s)) \<subseteq> set (timers s) \<union> {x. \<not> is_call_for p x}" .
qed

lemma extends_settle_pending:
  assumes a: "\<And>c t. pending_get key s = Some (Entry c t) \<Longrightarrow> Settle c out \<in> A"
  shows "extends p A s (settle_pending key out s)"
proof (cases "pending_get key s")
  case None
  then show ?thesis
    by (simp add: settle_pending_def)
next
  case (Some e)
  obtain c t where e: "e = Entry c t"
    by (cases e)
  have q: "extends p A (clearTimeout t s) (pending_delete key (clearTimeout t s))"
    by (rule extends_quiet) (simp_all add: pending_delete_def split: jsval.splits)
  have "settle_pending key out s = perform (Settle c out) (pending_delete key (clearTimeout t s))"
    by (simp add: settle_pending_def Some e)
  with extends_clearTimeout [of p A s t] q
    extends_perform [of "Settle c out" A p "pending_delete key (clearTimeout t s)"]
    a [OF Some [unfolded e]]
  show ?thesis
    by (auto intro: extends_trans)
qed

lemma pending_get_cong: "pending s' = pending s \<Longrightarrow> pending_get key s' = pending_get key s"
  by (cases key) (simp_all add: pending_get_def)

lemma extends_onResponse:
  assumes a: "\<And>e. \<not> is_resolve e \<Longrightarrow> e \<in> A" and r: "resolutions_by msg s \<subseteq> A"
  shows "extends p A s (onResponse hs msg now s)"
proof -
  let ?payload = "field msg ''payload''"
  have res: "Settle c (Resolved ?payload) \<in> A"
    if "pending_get (field msg ''id'') s' = Some (Entry c t)" "pending s' = pending s" for s' c t
    using that r pending_get_cong [of s' s] by (auto simp: resolutions_by_def)
  have rej: "Settle c (Rejected err) \<in> A" for c err
    by (rule a) simp
  have sp: "extends p A s' (settle_pending (field msg ''id'') out s')"
    if "pending s' = pending s" "out = Resolved ?payload \<or> (\<exists>err. out = Rejected err)" for s' out
    using that res rej by (intro extends_settle_pending) auto
  show ?thesis
  proof (cases "\<not> handshakeComplete s \<and> field ?payload ''type'' = JStr ''hello-ok''")
    case True
    let ?s2 = "(clearTimeout hs s)\<lparr>handshakeComplete := True, connectedAt := Some now,
        serverInfo := js_or (field ?payload ''server'') Null\<rparr>"
    let ?s3 = "perform (Emit ''connected'' ?payload) ?s2"
    have e2: "extends p A (clearTimeout hs s) ?s2"
      by (rule extends_quiet) simp_all
    have e3: "extends p A ?s2 ?s3"
      by (rule extends_perform) (simp add: a)
    have e4: "extends p A ?s3 (settle_pending (field msg ''id'') (Resolved ?payload) ?s3)"
      by (rule sp) (simp_all add: perform_def clearTimeout_def)
    have "onResponse hs msg now s = settle_pending (field msg ''id'') (Resolved ?payload) ?s3"
      using True by (simp add: onResponse_def Let_def)
    with extends_clearTimeout [of p A s hs] e2 e3 e4 show ?thesis
      by (auto intro: extends_trans)
  next
    case False
    note notHello = False
    show ?thesis
    proof (cases "\<not> handshakeComplete s \<and> field msg ''ok'' = JBool False")
      case True
      let ?out = "Rejected (Error (js_or (field (field msg ''error'') ''message'')
          (JStr ''Handshake failed'')) Undefined Undefined)"
      let ?s2 = "settle_pending (field msg ''id'') ?out (clearTimeout hs s)"
      have e2: "extends p A (clearTimeout hs s) ?s2"
        by (rule sp) (simp_all add: clearTimeout_def)
      have "onResponse hs msg now s = close_current ?s2"
        using True notHello by (simp add: onResponse_def Let_def)
      with extends_clearTimeout [of p A s hs] e2 extends_close_current [of p A ?s2] show ?thesis
        by (auto intro: extends_trans)
    next
      case False
      have "onResponse hs msg now s = settle_pending (field msg ''id'')
          (if truthy (field msg ''ok'') then Resolved ?payload
           else Rejected (Error (js_or (field (field msg ''error'') ''message'') (JStr ''RPC error''))
                  (field (field msg ''error'') ''code'') (field (field msg ''error'') ''details''))) s"
        using False notHello by (simp only: onResponse_def Let_def if_False)
      then show ?thesis
        by (simp add: sp)
    qed
  qed
qed

text \<open>The effects that resolve no continuation, and what a step may add to them.\<close>

lemma extends_onmessage:
  assumes a: "\<And>e. \<not> is_resolve e \<Longrightarrow> e \<in> A"
    and r: "\<And>msg. data = Some msg \<Longrightarrow> resolutions_by msg s \<subseteq> A"
  shows "extends p A s (onmessage cfg hs data uuid now s)"
proof (cases data)
  case None
  then show ?thesis
    by (simp add: onmessage_def)
next
  case (Some msg)
  have e1: "extends p A s (sendConnectRequest cfg n uuid now s)" for n
    by (rule extends_sendConnectRequest) (simp add: a)
  have e2: "extends p A s (onResponse hs msg now s)"
    using a r [OF Some] by (rule extends_onResponse)
  have e3: "extends p A s (perform (Emit ''event'' msg) s)"
    by (rule extends_perform) (simp add: a)
  from e1 e2 e3 show ?thesis
    by (simp add: onmessage_def Some)
qed

lemma extends_fire:
  assumes a: "\<And>e. \<not> is_resolve e \<Longrightarrow> e \<in> A"
  shows "extends p A s (run_timer cfg cb (s\<lparr>timers := (timers s)[t := Dead]\<rparr>))"
proof -
  let ?s1 = "s\<lparr>timers := (timers s)[t := Dead]\<rparr>"
  have e1: "extends p A s ?s1"
    using extends_clearTimeout [of p A s t] by (simp add: clearTimeout_def)
  have del: "extends p A ?s1 (?s1\<lparr>pending := AList.delete j (pending ?s1)\<rparr>)" for j
    by (rule extends_quiet) simp_all
  have "extends p A ?s1 (run_timer cfg cb ?s1)"
  proof (cases cb)
    case (CallTimeout j m q)
    have "extends p A (?s1\<lparr>pending := AList.delete j (pending ?s1)\<rparr>) (run_timer cfg cb ?s1)"
      unfolding CallTimeout run_timer.simps by (rule extends_perform) (simp add: a)
    with del show ?thesis
      by (rule extends_trans)
  next
    case (ConnectReqTimeout j)
    have "extends p A (?s1\<lparr>pending := AList.delete j (pending ?s1)\<rparr>) (run_timer cfg cb ?s1)"
      unfolding ConnectReqTimeout run_timer.simps by (rule extends_close_current)
    with del show ?thesis
      by (rule extends_trans)
  next
    case HandshakeTimeout
    then show ?thesis
      by (simp add: extends_close_current)
  next
    case ReconnectFire
    have q: "extends p A ?s1 (?s1\<lparr>reconnectTimer := None\<rparr>)"
      by (rule extends_quiet) simp_all
    have "extends p A (?s1\<lparr>reconnectTimer := None\<rparr>) (run_timer cfg cb ?s1)"
      unfolding ReconnectFire run_timer.simps by (rule extends_doConnect) (simp add: a)
    with q show ?thesis
      by (rule extends_trans)
  qed
  with e1 show ?thesis
    by (rule extends_trans)
qed

lemma extends_step:
  assumes a: "\<And>e. \<not> is_resolve e \<Longrightarrow> e \<in> A"
    and r: "\<And>k msg uuid now. ev = SockMessage k (Some msg) uuid now \<Longrightarrow> resolutions_by msg s \<subseteq> A"
    and p: "p < nextPromise s"
  shows "extends p A s (step cfg s ev)"
proof (cases ev)
  case Connect
  then show ?thesis
    by (simp add: connect_def extends_doConnect a)
next
  case (Call meth params uuid)
  show ?thesis
  proof (cases "isConnected s")
    case True
    have "extends p A s (snd (projr (call meth params uuid s)))"
      using True p by (intro extends_call) (simp_all add: a)
    then show ?thesis
      by (simp add: Call call_Inr [OF True])
  next
    case False
    then show ?thesis
      by (simp add: Call call_def)
  qed
next
  case Disconnect
  then show ?thesis
    by (simp add: extends_disconnect)
next
  case (SockOpen k)
  have "extends p A s (onopen (set_ready k OPEN s))"
    by (rule extends_quiet) (simp_all add: onopen_def)
  then show ?thesis
    by (simp add: SockOpen)
next
  case (SockMessage k data uuid now)
  have "extends p A s (onmessage cfg hs data uuid now s)" for hs
  proof (rule extends_onmessage [OF a])
    fix msg assume "data = Some msg"
    with SockMessage have "ev = SockMessage k (Some msg) uuid now"
      by simp
    then show "resolutions_by msg s \<subseteq> A"
      by (rule r)
  qed
  then show ?thesis
    by (simp add: SockMessage)
next
  case (SockError k)
  then show ?thesis
    by simp
next
  case (SockClose k)
  have "extends p A s (set_ready k CLOSED s)"
    by (rule extends_quiet) simp_all
  with extends_onclose [OF a, where s = "set_ready k CLOSED s" and p = p]
  have "extends p A s (onclose hs (set_ready k CLOSED s))" for hs
    by (auto intro: extends_trans)
  then show ?thesis
    by (simp add: SockClose)
next
  case (TimerFire t)
  with extends_fire [OF a, where s = s and p = p and t = t and cfg = cfg] show ?thesis
    by (auto split: timer_slot.splits)
qed

subsection \<open>A call and its promise\<close>

lemma fresh_run_append:
  "fresh_run cfg s (es @ es') = (fresh_run cfg s es \<and> fresh_run cfg (run cfg s es) es')"
  by (induction es arbitrary: s) auto

lemma timer_of_call_extends:
  assumes t: "timer_of_call p uuid meth s" and e: "extends p A s s'"
  shows "timer_of_call p uuid meth s'"
  using t e unfolding timer_of_call_def extends_def by force

lemma timer_of_call_step:
  assumes t: "timer_of_call p uuid meth s"
  shows "timer_of_call p uuid meth (step cfg s ev)"
proof -
  have "extends p UNIV s (step cfg s ev)"
    using t by (intro extends_step) (simp_all add: timer_of_call_def)
  with t show ?thesis
    by (rule timer_of_call_extends)
qed

lemma timer_of_call_run:
  "timer_of_call p uuid meth s \<Longrightarrow> timer_of_call p uuid meth (run cfg s es)"
  by (induction es arbitrary: s) (auto intro: timer_of_call_step)

lemma no_timer_of_next_promise:
  assumes c: "consistent s" and x: "x \<in> set (timers s)"
  shows "\<not> is_call_for (nextPromise s) x"
proof
  assume f: "is_call_for (nextPromise s) x"
  from x obtain t where t: "t < length (timers s)" "timers s ! t = x"
    by (auto simp: in_set_conv_nth)
  from f obtain d i m where xe: "x = Armed d (CallTimeout i m (nextPromise s))"
    by (cases "(nextPromise s, x)" rule: is_call_for.cases) auto
  have tab: "table_ok (pending s) (timers s) (reconnectTimer s) (nextPromise s)
      (handshakeTimer ` set (socks s))"
    using c by (simp add: consistent_def)
  from table_ok_owner [OF tab t(1)] t(2) xe
  have "map_of (pending s) i = Some (Entry (PromiseK (nextPromise s)) t)"
    by simp
  then have "(i, Entry (PromiseK (nextPromise s)) t) \<in> set (pending s)"
    by (rule map_of_SomeD)
  from table_ok_promise [OF tab this, of "nextPromise s"] show False
    by simp
qed

lemma timer_of_call_after_call:
  assumes c: "consistent s" and conn: "isConnected s"
  shows "timer_of_call (nextPromise s) uuid meth (step cfg s (Call meth params uuid))"
  using no_timer_of_next_promise [OF c]
  by (auto simp: timer_of_call_def call_Inr [OF conn])

lemma pending_promise_under_id:
  assumes c: "consistent s" and t: "timer_of_call p uuid meth s"
    and ie: "ie \<in> set (pending_of p s)"
  shows "fst ie = uuid \<and> timer_of (snd ie) < length (timers s)
     \<and> timers s ! timer_of (snd ie) = Armed CALL_TIMEOUT_MS (CallTimeout uuid meth p)"
proof -
  obtain i k tm where e: "ie = (i, Entry k tm)"
    by (cases ie; cases "snd ie") auto
  from ie e have mem: "(i, Entry (PromiseK p) tm) \<in> set (pending s)" and k: "k = PromiseK p"
    by (auto simp: pending_of_def)
  have tab: "table_ok (pending s) (timers s) (reconnectTimer s) (nextPromise s)
      (handshakeTimer ` set (socks s))"
    using c by (simp add: consistent_def)
  from table_ok_entry [OF tab mem]
  have tl: "tm < length (timers s)" and sl: "slot_matches i (Entry (PromiseK p) tm) (timers s ! tm)"
    by simp_all
  from sl obtain m where slot: "timers s ! tm = Armed CALL_TIMEOUT_MS (CallTimeout i m p)"
    by (cases "(i, Entry (PromiseK p) tm, timers s ! tm)" rule: slot_matches.cases) auto
  have "timers s ! tm \<in> set (timers s)"
    using tl by simp
  with t slot have "Armed CALL_TIMEOUT_MS (CallTimeout i m p)
      = Armed CALL_TIMEOUT_MS (CallTimeout uuid meth p)"
    unfolding timer_of_call_def by force
  with slot tl e show ?thesis
    by simp
qed

lemma resolution_from_frame:
  assumes r: "Settle c (Resolved v) \<in> set (new_effects s (step cfg s ev))"
    and p: "p < nextPromise s"
  shows "\<exists>k msg u now t. ev = SockMessage k (Some msg) u now \<and> field msg ''payload'' = v
     \<and> pending_get (field msg ''id'') s = Some (Entry c t)"
proof -
  define A where "A = {e. \<not> is_resolve e}
      \<union> (case ev of SockMessage k (Some msg) u now \<Rightarrow> resolutions_by msg s | _ \<Rightarrow> {})"
  have "extends p A s (step cfg s ev)"
    by (rule extends_step) (auto simp: A_def p)
  then obtain es where es: "effects (step cfg s ev) = effects s @ es" "set es \<subseteq> A"
    unfolding extends_def by blast
  from es(1) have "new_effects s (step cfg s ev) = es"
    by (simp add: new_effects_def)
  with r es(2) have "Settle c (Resolved v) \<in> A"
    by auto
  then have "Settle c (Resolved v)
      \<in> (case ev of SockMessage k (Some msg) u now \<Rightarrow> resolutions_by msg s | _ \<Rightarrow> {})"
    by (simp add: A_def)
  then show ?thesis
    by (auto simp: resolutions_by_def split: event.splits option.splits)
qed

text \<open>
  C1: take any run of a new client in which ids are generated fresh, and a \<^verbatim>\<open>call\<close> in it
  made while connected, with id \<open>uuid\<close>; it returns promise \<open>p\<close>. At every later moment of
  the run either the promise is still in the pending map and no continuation of it has been
  invoked, or it has left the map and exactly one continuation of it has been invoked, once
  (whichever of response, error response, timeout or close came first). While it is in the
  map it is stored under \<open>uuid\<close> and its 15000 ms timer for this id and method is armed.
  And whenever a step resolves the promise with a value, the step is the arrival of a
  response frame whose id is \<open>uuid\<close> and whose payload is that value.
\<close>

theorem call_settled_exactly_once:
  assumes fresh: "fresh_run cfg init (evs1 @ Call meth params uuid # evs2)"
    and conn: "isConnected (run cfg init evs1)"
  shows "call meth params uuid (run cfg init evs1)
       = Inr (nextPromise (run cfg init evs1), step cfg (run cfg init evs1) (Call meth params uuid))
     \<and> length (pending_of (nextPromise (run cfg init evs1))
                  (run cfg init (evs1 @ Call meth params uuid # evs2)))
         + length (settles (nextPromise (run cfg init evs1))
                  (run cfg init (evs1 @ Call meth params uuid # evs2))) = 1
     \<and> (\<forall>ie \<in> set (pending_of (nextPromise (run cfg init evs1))
                    (run cfg init (evs1 @ Call meth params uuid # evs2))).
           fst ie = uuid
           \<and> timer_of (snd ie) < length (timers (run cfg init (evs1 @ Call meth params uuid # evs2)))
           \<and> timers (run cfg init (evs1 @ Call meth params uuid # evs2)) ! timer_of (snd ie)
               = Armed CALL_TIMEOUT_MS (CallTimeout uuid meth (nextPromise (run cfg init evs1))))
     \<and> (\<forall>ev v. Settle (PromiseK (nextPromise (run cfg init evs1))) (Resolved v)
                  \<in> set (new_effects (run cfg init (evs1 @ Call meth params uuid # evs2))
                          (step cfg (run cfg init (evs1 @ Call meth params uuid # evs2)) ev))
           \<longrightarrow> (\<exists>k msg u now. ev = SockMessage k (Some msg) u now
                  \<and> field msg ''id'' = JStr uuid \<and> field msg ''payload'' = v))"
proof -
  let ?before = "run cfg init evs1"
  let ?p = "nextPromise ?before"
  let ?called = "step cfg ?before (Call meth params uuid)"
  let ?after = "run cfg init (evs1 @ Call meth params uuid # evs2)"
  have s: "?after = run cfg ?called evs2"
    by (simp add: run_append)
  from fresh have f0: "fresh_run cfg init evs1" and fu: "uuid_fresh ?before (Call meth params uuid)"
    and f2: "fresh_run cfg ?called evs2"
    by (simp_all add: fresh_run_append)
  have c0: "consistent ?before"
    using consistent_init f0 by (rule consistent_run)
  have c1: "consistent ?called"
    using c0 fu by (rule consistent_step)
  have c: "consistent ?after"
    unfolding s using c1 f2 by (rule consistent_run)
  have t: "timer_of_call ?p uuid meth ?after"
    unfolding s using timer_of_call_after_call [OF c0 conn] by (rule timer_of_call_run)
  have a: "call meth params uuid ?before = Inr (?p, ?called)"
    by (simp add: call_Inr [OF conn])
  have lt: "?p < nextPromise ?after"
    using t by (simp add: timer_of_call_def)
  have b: "length (pending_of ?p ?after) + length (settles ?p ?after) = 1"
    using c lt by (simp add: consistent_def counted_def pending_of_def settles_def)
  have d: "fst ie = uuid \<and> timer_of (snd ie) < length (timers ?after)
      \<and> timers ?after ! timer_of (snd ie) = Armed CALL_TIMEOUT_MS (CallTimeout uuid meth ?p)"
    if "ie \<in> set (pending_of ?p ?after)" for ie
    using c t that by (rule pending_promise_under_id)
  have e: "\<exists>k msg u now. ev = SockMessage k (Some msg) u now
      \<and> field msg ''id'' = JStr uuid \<and> field msg ''payload'' = v"
    if r: "Settle (PromiseK ?p) (Resolved v) \<in> set (new_effects ?after (step cfg ?after ev))" for ev v
  proof -
    from resolution_from_frame [OF r lt]
    obtain k msg u now tm where ev: "ev = SockMessage k (Some msg) u now"
      and v: "field msg ''payload'' = v"
      and g: "pending_get (field msg ''id'') ?after = Some (Entry (PromiseK ?p) tm)"
      by blast
    from g obtain i where i: "field msg ''id'' = JStr i"
      and m: "map_of (pending ?after) i = Some (Entry (PromiseK ?p) tm)"
      by (cases "field msg ''id''") (auto simp: pending_get_def)
    have "(i, Entry (PromiseK ?p) tm) \<in> set (pending_of ?p ?after)"
      using map_of_SomeD [OF m] by (simp add: pending_of_def)
    from d [OF this] have "i = uuid"
      by simp
    with ev v i show ?thesis
      by blast
  qed
  from a b d e show ?thesis
    by blast
qed

lemma fresh_ready: "fresh_run example_config init ready_events"
  by (simp add: init_def model_defs example_defs dec_small)

theorem call_settled_exactly_once_witness:
  "fresh_run example_config init
      (ready_events @ Call ''sessions.list'' (JObj []) ''u1''
         # [SockMessage 0 (Some (response_frame ''u1'' (JBool True) (JStr ''done''))) ''x'' 7])
   \<and> isConnected (run example_config init ready_events)
   \<and> length (pending_of 0 (run example_config init
          (ready_events @ Call ''sessions.list'' (JObj []) ''u1''
             # [SockMessage 0 (Some (response_frame ''u1'' (JBool True) (JStr ''done''))) ''x'' 7])))
       + length (settles 0 (run example_config init
          (ready_events @ Call ''sessions.list'' (JObj []) ''u1''
             # [SockMessage 0 (Some (response_frame ''u1'' (JBool True) (JStr ''done''))) ''x'' 7])))
       = 1
   \<and> pending (run example_config init
          (ready_events @ Call ''sessions.list'' (JObj []) ''u1''
             # [SockMessage 0 (Some (response_frame ''u1'' (JBool True) (JStr ''done''))) ''x'' 7]))
       = []"
proof -
  let ?evs2 = "[SockMessage 0 (Some (response_frame ''u1'' (JBool True) (JStr ''done''))) ''x'' 7]"
  have conn: "isConnected (run example_config init ready_events)"
    by (simp add: run_ready ready_state_def isConnected_def)
  have np: "nextPromise (run example_config init ready_events) = 0"
    by (simp add: run_ready ready_state_def)
  have f2: "fresh_run example_config ready_state (Call ''sessions.list'' (JObj []) ''u1'' # ?evs2)"
    by (simp add: ready_state_def call_Inr isConnected_def)
  have fresh: "fresh_run example_config init
      (ready_events @ Call ''sessions.list'' (JObj []) ''u1'' # ?evs2)"
    unfolding fresh_run_append run_ready using fresh_ready f2 by (rule conjI)
  have pe: "pending (run example_config ready_state (Call ''sessions.list'' (JObj []) ''u1'' # ?evs2)) = []"
    by (simp add: ready_state_def call_Inr isConnected_def onmessage_def onResponse_def
        response_frame_def settle_pending_def pending_get_def pending_delete_def perform_def
        clearTimeout_def send_def json_obj_def Let_def)
  note th = call_settled_exactly_once [OF fresh conn, THEN conjunct2, THEN conjunct1, unfolded np]
  from fresh conn th pe show ?thesis
    unfolding run_append [of _ _ ready_events] run_ready by simp
qed

subsection \<open>The current socket\<close>


lemma perform_sockets [simp]: "ws (perform e s) = ws s" "socks (perform e s) = socks s"
  by (simp_all add: perform_def)

lemma clearTimeout_ws [simp]: "ws (clearTimeout t s) = ws s"
  by (simp add: clearTimeout_def)

lemma scheduleReconnect_sockets [simp]:
  "ws (scheduleReconnect s) = ws s" "socks (scheduleReconnect s) = socks s"
  by (simp_all add: scheduleReconnect_def perform_def setTimeout_def Let_def)

lemma settle_pending_sockets [simp]:
  "ws (settle_pending key out s) = ws s" "socks (settle_pending key out s) = socks s"
  by (cases key; simp add: settle_pending_def pending_get_def pending_delete_def
      split: option.splits entry.splits)+

lemma sendConnectRequest_sockets [simp]:
  "ws (sendConnectRequest cfg n uuid now s) = ws s"
  "socks (sendConnectRequest cfg n uuid now s) = socks s"
  by (simp_all add: sendConnectRequest_def setTimeout_def Let_def split: option.splits)








lemma sockets_ok_updates [simp]:
  "sockets_ok (s\<lparr>connected := a\<rparr>) = sockets_ok s"
  "sockets_ok (s\<lparr>handshakeComplete := b\<rparr>) = sockets_ok s"
  "sockets_ok (s\<lparr>connectedAt := c\<rparr>) = sockets_ok s"
  "sockets_ok (s\<lparr>serverInfo := d\<rparr>) = sockets_ok s"
  "sockets_ok (s\<lparr>reconnectDelay := e\<rparr>) = sockets_ok s"
  "sockets_ok (s\<lparr>reconnectTimer := f\<rparr>) = sockets_ok s"
  "sockets_ok (s\<lparr>timers := g\<rparr>) = sockets_ok s"
  "sockets_ok (s\<lparr>pending := h\<rparr>) = sockets_ok s"
  "sockets_ok (s\<lparr>nextPromise := i\<rparr>) = sockets_ok s"
  "sockets_ok (s\<lparr>effects := j\<rparr>) = sockets_ok s"
  by (simp_all add: sockets_ok_def)

lemma sockets_ok_quiet [simp]:
  "sockets_ok (perform e s) = sockets_ok s"
  "sockets_ok (clearTimeout t s) = sockets_ok s"
  "sockets_ok (scheduleReconnect s) = sockets_ok s"
  "sockets_ok (settle_pending key out s) = sockets_ok s"
  "sockets_ok (sendConnectRequest cfg n uuid now s) = sockets_ok s"
  "sockets_ok (send obj s) = sockets_ok s"
  by (simp_all add: sockets_ok_def)










lemma onclose_sockets [simp]: "ws (onclose hs s) = ws s" "socks (onclose hs s) = socks s"
  by (simp_all add: onclose_def fold_reject_closed scheduleReconnect_def perform_def setTimeout_def
      clearTimeout_def Let_def)

lemma sockets_ok_onclose [simp]: "sockets_ok (onclose hs s) = sockets_ok s"
  by (simp add: sockets_ok_def)






subsection \<open>The reconnect timer\<close>






lemma settle_pending_rt [simp]: "reconnectTimer (settle_pending key out s) = reconnectTimer s"
  by (cases key; simp add: settle_pending_def pending_get_def pending_delete_def perform_def
      clearTimeout_def split: option.splits entry.splits)

lemma close_current_rt [simp]: "reconnectTimer (close_current s) = reconnectTimer s"
  by (simp add: close_current_def split: option.splits)

lemma clearTimeout_rt [simp]: "reconnectTimer (clearTimeout t s) = reconnectTimer s"
  by (simp add: clearTimeout_def)

lemma settle_pending_hc [simp]:
  "handshakeComplete (settle_pending key out s) = handshakeComplete s"
  by (cases key; simp add: settle_pending_def pending_get_def pending_delete_def perform_def
      clearTimeout_def split: option.splits entry.splits)

subsection \<open>A response before the handshake is complete\<close>





lemma close_current_length [simp]: "length (socks (close_current s)) = length (socks s)"
  by (simp add: close_current_def split: option.splits)















end
